theory Spec2Isabelle
  imports Main "HOL-Library.Multiset" "HOL-Library.Sublist"
begin

section \<open>The executor\<close>

text \<open>
  \<^verbatim>\<open>executor\<close> is a pool of \<^verbatim>\<open>std::jthread\<close>s that share one
  \<^verbatim>\<open>std::queue<executable_ptr>\<close>, a mutex and a
  \<^verbatim>\<open>std::condition_variable_any\<close>. The model is an interleaving semantics: every
  region of the source that runs under \<^verbatim>\<open>mutex_\<close> is one step, and a worker thread is
  a small state machine whose positions are the places of \<^verbatim>\<open>run_thread\<close> where other
  threads can be observed to interleave.

  \<^item> \<open>At_lock\<close>: at the head of the \<^verbatim>\<open>while (true)\<close> loop, about to take the lock;
  \<^item> \<open>Waiting\<close>: asleep inside \<^verbatim>\<open>cva_.wait(lock, stoken, pred)\<close>, the lock released;
  \<^item> \<open>Notified\<close>: woken inside that wait, about to take the lock again and re-test;
  \<^item> \<open>Executing x\<close>: \<^verbatim>\<open>x\<close> has been popped, the lock is released, \<^verbatim>\<open>x->execute()\<close> runs;
  \<^item> \<open>Exited\<close>: the loop was left by \<^verbatim>\<open>break\<close>.
\<close>

datatype 'x position = At_lock | Waiting | Notified | Executing 'x | Exited

text \<open>A worker: its position in \<^verbatim>\<open>run_thread\<close> and the stop state of its own
  \<^verbatim>\<open>std::jthread\<close> (every jthread has a stop source of its own).\<close>

record 'x worker =
  pc :: "'x position"
  stop_requested :: bool

text \<open>The members \<^verbatim>\<open>threads_\<close> and \<^verbatim>\<open>queue_\<close> (the head of the list is
  \<^verbatim>\<open>queue_.front()\<close>). \<open>dequeued\<close> and \<open>executed\<close> are history variables that the source
  does not have: the items popped so far, in the order of the pops, and the items whose
  \<^verbatim>\<open>execute()\<close> has returned, in the order of the returns.\<close>

record 'x executor =
  threads :: "'x worker list"
  queue :: "'x list"
  dequeued :: "'x list"
  executed :: "'x list"

text \<open>The constructor starts \<^verbatim>\<open>number_of_threads\<close> threads on \<^verbatim>\<open>run_thread\<close>.\<close>

definition executor :: "nat \<Rightarrow> 'x executor" where
  "executor number_of_threads =
     \<lparr>threads = replicate number_of_threads \<lparr>pc = At_lock, stop_requested = False\<rparr>,
      queue = [], dequeued = [], executed = []\<rparr>"

text \<open>\<^verbatim>\<open>notify_one\<close> unblocks one of the threads waiting on the condition variable, if
  there is any; which one is not specified, the model takes the first in \<^verbatim>\<open>threads_\<close>
  (the step \<open>spurious_wakeup\<close> below wakes any other). \<^verbatim>\<open>notify_all\<close> unblocks all
  of them.\<close>

fun notify_one :: "'x worker list \<Rightarrow> 'x worker list" where
  "notify_one [] = []"
| "notify_one (w # ws) =
     (if pc w = Waiting then w\<lparr>pc := Notified\<rparr> # ws else w # notify_one ws)"

definition notify_all :: "'x worker list \<Rightarrow> 'x worker list" where
  "notify_all ws = map (\<lambda>w. if pc w = Waiting then w\<lparr>pc := Notified\<rparr> else w) ws"

text \<open>\<^verbatim>\<open>schedule\<close>: push under the lock, then \<^verbatim>\<open>cva_.notify_one()\<close>. There is no
  test and no wait in it.\<close>

definition schedule :: "'x \<Rightarrow> 'x executor \<Rightarrow> 'x executor" where
  "schedule ex e = e\<lparr>queue := queue e @ [ex], threads := notify_one (threads e)\<rparr>"

definition set_pc :: "nat \<Rightarrow> 'x position \<Rightarrow> 'x executor \<Rightarrow> 'x executor" where
  "set_pc i p e = e\<lparr>threads := (threads e)[i := (threads e ! i)\<lparr>pc := p\<rparr>]\<rparr>"

text \<open>\<^verbatim>\<open>auto next{ std::move(queue_.front()) }; queue_.pop(); lock.unlock();\<close> and the
  call \<^verbatim>\<open>next->execute()\<close> that follows without a test.\<close>

definition take_next :: "nat \<Rightarrow> 'x \<Rightarrow> 'x list \<Rightarrow> 'x executor \<Rightarrow> 'x executor" where
  "take_next i nxt rest e =
     (set_pc i (Executing nxt) e)\<lparr>queue := rest, dequeued := dequeued e @ [nxt]\<rparr>"

text \<open>
  One step of worker \<open>i\<close> in \<^verbatim>\<open>run_thread\<close>.
  \<^verbatim>\<open>cva_.wait(lock, stoken, pred)\<close> is, by the standard,
  \<^verbatim>\<open>while (!stoken.stop_requested()) { if (pred()) return true; wait(lock); } return pred();\<close>
  with \<^verbatim>\<open>pred\<close> the test \<^verbatim>\<open>not queue_.empty()\<close>, and it is entered only when the
  queue was seen empty.
  \<^item> At the loop head with a non-empty queue the worker pops, whatever its stop state.
  \<^item> At the loop head with an empty queue the wait is entered: with stop requested it
    returns at once and \<^verbatim>\<open>if (stoken.stop_requested()) break;\<close> leaves the loop;
    otherwise the thread sleeps.
  \<^item> A sleeping thread does nothing until it is notified.
  \<^item> A notified thread holds the lock again: with stop requested the wait returns and
    the \<^verbatim>\<open>break\<close> is taken, whatever the queue holds; otherwise it pops when the queue
    is not empty and sleeps again when it is.
  \<^item> \<^verbatim>\<open>execute()\<close> returns and the loop starts again.
  The stop state is read twice in the source (inside the wait and after it); a request
  that arrives between the two reads has the effect of one that arrived before the
  first, so one step with one read covers both.
\<close>

definition run_thread :: "nat \<Rightarrow> 'x executor \<Rightarrow> 'x executor" where
  "run_thread i e =
     (if i < length (threads e) then
        (case pc (threads e ! i) of
           At_lock \<Rightarrow>
             (case queue e of
                [] \<Rightarrow> if stop_requested (threads e ! i) then set_pc i Exited e
                      else set_pc i Waiting e
              | nxt # rest \<Rightarrow> take_next i nxt rest e)
         | Waiting \<Rightarrow> e
         | Notified \<Rightarrow>
             (if stop_requested (threads e ! i) then set_pc i Exited e
              else (case queue e of
                      [] \<Rightarrow> set_pc i Waiting e
                    | nxt # rest \<Rightarrow> take_next i nxt rest e))
         | Executing x \<Rightarrow> (set_pc i At_lock e)\<lparr>executed := executed e @ [x]\<rparr>
         | Exited \<Rightarrow> e)
      else e)"

text \<open>\<^verbatim>\<open>t.request_stop()\<close> on thread \<open>i\<close>. The interruptible wait registers the
  condition variable with the stop token for the time of the call, to be notified (all
  waiters) on a stop request; so a request that finds its thread inside the wait
  notifies all sleeping threads, and a request to a thread that is not in the wait only
  sets the stop state.\<close>

definition request_stop :: "nat \<Rightarrow> 'x executor \<Rightarrow> 'x executor" where
  "request_stop i e =
     (if i < length (threads e) then
        e\<lparr>threads :=
            (if pc (threads e ! i) = Waiting \<or> pc (threads e ! i) = Notified
             then notify_all else (\<lambda>ws. ws))
              ((threads e)[i := (threads e ! i)\<lparr>stop_requested := True\<rparr>])\<rparr>
      else e)"

text \<open>The destructor: \<^verbatim>\<open>for_each(threads_, request_stop)\<close>, then it joins every
  thread, that is, it returns only in a state where every worker has left its loop.\<close>

definition request_stop_all :: "'x executor \<Rightarrow> 'x executor" where
  "request_stop_all e = foldl (\<lambda>e' i. request_stop i e') e [0..<length (threads e)]"

definition joined :: "'x executor \<Rightarrow> bool" where
  "joined e = list_all (\<lambda>w. pc w = Exited) (threads e)"

text \<open>A condition variable may wake a sleeping thread without a notification.\<close>

definition spurious_wakeup :: "nat \<Rightarrow> 'x executor \<Rightarrow> 'x executor" where
  "spurious_wakeup i e =
     (if i < length (threads e) \<and> pc (threads e ! i) = Waiting then set_pc i Notified e
      else e)"

text \<open>An execution of the pool is a list of steps in the order in which they take the
  lock: a producer's \<^verbatim>\<open>schedule\<close>, a step of worker \<open>i\<close>, a stop request, a spurious
  wakeup.\<close>

datatype 'x eop = Schedule 'x | Run_thread nat | Request_stop nat | Spurious_wakeup nat

fun exec_eop :: "'x executor \<Rightarrow> 'x eop \<Rightarrow> 'x executor" where
  "exec_eop e (Schedule x) = schedule x e"
| "exec_eop e (Run_thread i) = run_thread i e"
| "exec_eop e (Request_stop i) = request_stop i e"
| "exec_eop e (Spurious_wakeup i) = spurious_wakeup i e"

definition run_pool :: "'x eop list \<Rightarrow> 'x executor \<Rightarrow> 'x executor" where
  "run_pool ops e = foldl exec_eop e ops"



text \<open>
  A step is blocked when its thread cannot go on before another thread acts. The
  mutex is held only for the length of one step, so taking it never waits for longer
  than that; the only wait of the pool for an event is \<^verbatim>\<open>cva_.wait\<close> in
  \<^verbatim>\<open>run_thread\<close>, where a sleeping worker stays until it is notified.
  \<^verbatim>\<open>schedule\<close> has a \<^verbatim>\<open>lock_guard\<close>, a \<^verbatim>\<open>push\<close> on an unbounded queue and a
  \<^verbatim>\<open>notify_one\<close>, and no wait; \<^verbatim>\<open>request_stop\<close> has none either.
\<close>

fun blocked :: "'x executor \<Rightarrow> 'x eop \<Rightarrow> bool" where
  "blocked e (Schedule x) = False"
| "blocked e (Run_thread i) = (i < length (threads e) \<and> pc (threads e ! i) = Waiting)"
| "blocked e (Request_stop i) = False"
| "blocked e (Spurious_wakeup i) = False"

text \<open>The items whose \<^verbatim>\<open>execute()\<close> is running, the number of sleeping workers, the
  number of notified ones, and the state in which every worker sleeps.\<close>

fun running :: "'x worker \<Rightarrow> 'x list" where
  "running w = (case pc w of Executing x \<Rightarrow> [x] | _ \<Rightarrow> [])"

definition in_flight :: "'x executor \<Rightarrow> 'x list" where
  "in_flight e = concat (map running (threads e))"

definition idle :: "'x executor \<Rightarrow> nat" where
  "idle e = length (filter (\<lambda>w. pc w = Waiting) (threads e))"

definition woken :: "'x executor \<Rightarrow> nat" where
  "woken e = length (filter (\<lambda>w. pc w = Notified) (threads e))"


text \<open>No stop has been requested of any worker and none has left its loop.\<close>

definition unstopped :: "'x executor \<Rightarrow> bool" where
  "unstopped e = list_all (\<lambda>w. \<not> stop_requested w \<and> pc w \<noteq> Exited) (threads e)"



text \<open>The positions a worker can only be in after it has seen the queue empty at the
  head of its loop: inside the wait, or out of the loop.\<close>

fun past_empty_test :: "'x position \<Rightarrow> bool" where
  "past_empty_test Waiting = True"
| "past_empty_test Notified = True"
| "past_empty_test Exited = True"
| "past_empty_test At_lock = False"
| "past_empty_test (Executing x) = False"

section \<open>Continuations, the shared state and the task\<close>

text \<open>
  Addresses are natural numbers: a \<^verbatim>\<open>std::coroutine_handle<>\<close> is the address of a
  coroutine frame, an \<^verbatim>\<open>executor*\<close> the address of a pool, and a
  \<^verbatim>\<open>shared_ptr<state>\<close> or \<^verbatim>\<open>weak_ptr<state>\<close> the address of a shared state.
\<close>

type_synonym handle = nat
type_synonym executor_ptr = nat
type_synonym state_ptr = nat

text \<open>What can be stored in or thrown out of a \<^verbatim>\<open>std::promise\<close>: an exception object
  of the task body, identified by a number, or the \<^verbatim>\<open>std::future_error\<close> that
  \<^verbatim>\<open>set_value\<close> and \<^verbatim>\<open>set_exception\<close> throw when the promise already holds a result.\<close>

datatype exception = Thrown nat | Promise_already_satisfied

text \<open>\<^verbatim>\<open>struct continuation { handle_type handle_; executor* executor_; }\<close>\<close>

record continuation =
  c_handle :: handle
  c_executor :: executor_ptr

text \<open>The two classes that implement \<^verbatim>\<open>executable\<close>: the continuation manager's
  \<^verbatim>\<open>resumer\<close>, which holds a handle, and the task's shared \<^verbatim>\<open>state\<close>; the queue
  holds the latter by \<^verbatim>\<open>shared_ptr\<close>.\<close>

datatype executable = Resumer handle | State state_ptr

text \<open>\<^verbatim>\<open>continuation_manager\<close>: the vector \<^verbatim>\<open>continuations_\<close> (its mutex makes each
  member function one step).\<close>

record continuation_manager =
  continuations :: "continuation list"

text \<open>\<^verbatim>\<open>ctask<result_t>::state\<close>. The \<^verbatim>\<open>std::promise result_\<close> and the
  \<^verbatim>\<open>std::shared_future shared_future_\<close> made from it refer to one result slot, the field
  \<open>result\<close>: \<open>None\<close> while it is not ready, then a value (\<open>Inr\<close>) or an exception
  (\<open>Inl\<close>). \<open>handle\<close> is \<^verbatim>\<open>handle_\<close>, \<open>None\<close> for \<^verbatim>\<open>nullptr\<close>.\<close>

record 'r state =
  handle :: "handle option"
  name :: string
  result :: "(exception + 'r) option"
  continuation_manager :: continuation_manager

text \<open>
  The whole system: the pools by address, the heap of shared states (\<open>None\<close> where no
  state lives: never allocated, or destroyed when its last \<^verbatim>\<open>shared_ptr\<close> went), and a
  history variable \<open>resumed\<close> that the source does not have: the handles on which
  \<^verbatim>\<open>resume()\<close> has been called, in the order of the calls.
\<close>

record 'r sys =
  executors :: "executor_ptr \<Rightarrow> executable executor"
  states :: "state_ptr \<Rightarrow> 'r state option"
  resumed :: "handle list"

subsection \<open>The executor provider\<close>

definition DEFAULT_CONCURRENCY :: nat where
  "DEFAULT_CONCURRENCY = 4"

text \<open>\<^verbatim>\<open>ctask_executor_provider::get_executor()\<close> returns the one static instance;
  \<open>get_executor\<close> is its address.\<close>

definition get_executor :: executor_ptr where
  "get_executor = 0"

text \<open>The system before any task is made: every pool is as its constructor leaves it,
  with the provider's number of threads, and no state lives.\<close>

definition initial_sys :: "'r sys" where
  "initial_sys = \<lparr>executors = (\<lambda>p. executor DEFAULT_CONCURRENCY), states = (\<lambda>t. None),
                  resumed = []\<rparr>"

text \<open>\<^verbatim>\<open>p->schedule(ex)\<close> on the pool at address \<open>p\<close>.\<close>

definition schedule_on :: "executor_ptr \<Rightarrow> executable \<Rightarrow> 'r sys \<Rightarrow> 'r sys" where
  "schedule_on p ex s = s\<lparr>executors := (executors s)(p := schedule ex (executors s p))\<rparr>"

subsection \<open>The continuation manager\<close>

text \<open>\<^verbatim>\<open>continuation_manager::register_continuation\<close>: \<^verbatim>\<open>push_back\<close> under the lock.\<close>

definition register_continuation ::
    "continuation \<Rightarrow> continuation_manager \<Rightarrow> continuation_manager" where
  "register_continuation c cm = cm\<lparr>continuations := continuations cm @ [c]\<rparr>"

text \<open>\<^verbatim>\<open>resume_continuation\<close>:
  \<^verbatim>\<open>c.executor_->schedule(std::make_shared<resumer>(c.handle_))\<close>.\<close>

definition resume_continuation :: "continuation \<Rightarrow> 'r sys \<Rightarrow> 'r sys" where
  "resume_continuation c s = schedule_on (c_executor c) (Resumer (c_handle c)) s"

text \<open>\<^verbatim>\<open>resume_all_continuations\<close>: \<^verbatim>\<open>for_each\<close> over \<^verbatim>\<open>continuations_\<close>, under the
  lock; the vector itself is not changed.\<close>

definition resume_all_continuations :: "continuation_manager \<Rightarrow> 'r sys \<Rightarrow> 'r sys" where
  "resume_all_continuations cm s = foldl (\<lambda>s' c. resume_continuation c s') s (continuations cm)"

text \<open>\<^verbatim>\<open>handle.resume()\<close>: the frame continues on the calling thread. What the body
  does from there is the body's; the model records the call.\<close>

definition resume :: "handle \<Rightarrow> 'r sys \<Rightarrow> 'r sys" where
  "resume h s = s\<lparr>resumed := resumed s @ [h]\<rparr>"

subsection \<open>The shared state\<close>

definition new_state :: "handle \<Rightarrow> 'r state" where
  "new_state h = \<lparr>handle = Some h, name = [], result = None,
                  continuation_manager = \<lparr>continuations = []\<rparr>\<rparr>"

definition set_handle :: "handle option \<Rightarrow> 'r state \<Rightarrow> 'r state" where
  "set_handle h st = st\<lparr>handle := h\<rparr>"

definition set_name :: "string \<Rightarrow> 'r state \<Rightarrow> 'r state" where
  "set_name n st = st\<lparr>name := n\<rparr>"

text \<open>\<^verbatim>\<open>set_result\<close> and \<^verbatim>\<open>set_exception\<close> are \<^verbatim>\<open>result_.set_value\<close> and
  \<^verbatim>\<open>result_.set_exception\<close>: they store when the slot is empty, and throw
  \<^verbatim>\<open>future_error(promise_already_satisfied)\<close>, leaving the slot as it is, when it is
  not.\<close>

definition set_result :: "'r \<Rightarrow> 'r state \<Rightarrow> exception + 'r state" where
  "set_result v st =
     (case result st of
        None \<Rightarrow> Inr (st\<lparr>result := Some (Inr v)\<rparr>)
      | Some r \<Rightarrow> Inl Promise_already_satisfied)"

definition set_exception :: "exception \<Rightarrow> 'r state \<Rightarrow> exception + 'r state" where
  "set_exception x st =
     (case result st of
        None \<Rightarrow> Inr (st\<lparr>result := Some (Inl x)\<rparr>)
      | Some r \<Rightarrow> Inl Promise_already_satisfied)"

text \<open>\<^verbatim>\<open>weak_ptr::lock()\<close>, and a write to the state a pointer refers to.\<close>

definition lock :: "'r sys \<Rightarrow> state_ptr \<Rightarrow> 'r state option" where
  "lock s t = states s t"

definition store :: "state_ptr \<Rightarrow> 'r state \<Rightarrow> 'r sys \<Rightarrow> 'r sys" where
  "store t st s = s\<lparr>states := (states s)(t := Some st)\<rparr>"

text \<open>\<^verbatim>\<open>execute()\<close> of the two executables: both call \<^verbatim>\<open>handle_.resume()\<close> and
  nothing else. A \<open>State\<close> in the queue keeps its state alive, and its handle is cleared
  only by \<^verbatim>\<open>final_suspend\<close>, which runs after that call; the two other branches are
  there to make the function total.\<close>

fun execute :: "executable \<Rightarrow> 'r sys \<Rightarrow> 'r sys" where
  "execute (Resumer h) s = resume h s"
| "execute (State t) s =
     (case states s t of
        None \<Rightarrow> s
      | Some st \<Rightarrow> (case handle st of None \<Rightarrow> s | Some h \<Rightarrow> resume h s))"

text \<open>The item that the next step of worker \<open>i\<close> pops, if that step is a pop.\<close>

definition popped :: "nat \<Rightarrow> 'x executor \<Rightarrow> 'x option" where
  "popped i e =
     (if i < length (threads e) \<and>
         (pc (threads e ! i) = At_lock \<or>
          pc (threads e ! i) = Notified \<and> \<not> stop_requested (threads e ! i))
      then (case queue e of [] \<Rightarrow> None | nxt # rest \<Rightarrow> Some nxt)
      else None)"

text \<open>A step of worker \<open>i\<close> of the pool at \<open>p\<close>. The step that pops an item also
  makes the call \<^verbatim>\<open>next->execute()\<close>, whose first and only action is
  \<^verbatim>\<open>resume()\<close>; the worker stays at \<open>Executing\<close> until the resumed coroutine gives the
  thread back.\<close>

definition worker_step :: "executor_ptr \<Rightarrow> nat \<Rightarrow> 'r sys \<Rightarrow> 'r sys" where
  "worker_step p i s =
     (let e = executors s p;
          s' = s\<lparr>executors := (executors s)(p := run_thread i e)\<rparr>
      in case popped i e of None \<Rightarrow> s' | Some x \<Rightarrow> execute x s')"

subsection \<open>The task\<close>

text \<open>
  A \<^verbatim>\<open>ctask\<close> is its \<^verbatim>\<open>shared_ptr<state> shared_state_\<close>; copies of a task hold the
  same address. A task keeps its state alive, so the \<open>None\<close> branches below are not
  reached through a task; they make the functions total.

  \<^verbatim>\<open>ready()\<close> asks the shared future with a zero timeout.
  \<^verbatim>\<open>get_result()\<close> is \<^verbatim>\<open>shared_future::get()\<close>: the call does not return while the
  slot is empty (\<open>None\<close>), returns the value (\<open>Some (Inr v)\<close>) or rethrows the stored
  exception (\<open>Some (Inl x)\<close>). \<^verbatim>\<open>wait()\<close> returns in the same states.
\<close>

definition ready :: "'r sys \<Rightarrow> state_ptr \<Rightarrow> bool" where
  "ready s t = (case states s t of None \<Rightarrow> False | Some st \<Rightarrow> result st \<noteq> None)"

definition get_result :: "'r sys \<Rightarrow> state_ptr \<Rightarrow> (exception + 'r) option" where
  "get_result s t = (case states s t of None \<Rightarrow> None | Some st \<Rightarrow> result st)"

definition wait :: "'r sys \<Rightarrow> state_ptr \<Rightarrow> bool" where
  "wait s t = (get_result s t \<noteq> None)"

text \<open>
  \<^verbatim>\<open>ctask::register_continuation(handle)\<close> has two parts, and other threads can run
  between them: the call of the manager's \<^verbatim>\<open>register_continuation\<close> with
  \<^verbatim>\<open>{handle, &ctask_executor_provider::get_executor()}\<close>, and then
  \<^verbatim>\<open>if (ready()) continuation_manager.resume_all_continuations();\<close>.
\<close>

definition register_continuation_append :: "state_ptr \<Rightarrow> handle \<Rightarrow> 'r sys \<Rightarrow> 'r sys" where
  "register_continuation_append t h s =
     (case states s t of
        None \<Rightarrow> s
      | Some st \<Rightarrow>
          store t (st\<lparr>continuation_manager :=
                        register_continuation \<lparr>c_handle = h, c_executor = get_executor\<rparr>
                          (continuation_manager st)\<rparr>) s)"

definition register_continuation_check :: "state_ptr \<Rightarrow> 'r sys \<Rightarrow> 'r sys" where
  "register_continuation_check t s =
     (if ready s t then
        (case states s t of
           None \<Rightarrow> s
         | Some st \<Rightarrow> resume_all_continuations (continuation_manager st) s)
      else s)"

definition ctask_register_continuation :: "state_ptr \<Rightarrow> handle \<Rightarrow> 'r sys \<Rightarrow> 'r sys" where
  "ctask_register_continuation t h s =
     register_continuation_check t (register_continuation_append t h s)"

subsection \<open>The coroutine promise\<close>

text \<open>
  The promise's only member is \<^verbatim>\<open>std::weak_ptr<state> shared_state_\<close>; a promise is
  given by that address, and every member function starts with \<^verbatim>\<open>shared_state_.lock()\<close>.

  \<^verbatim>\<open>get_return_object\<close> makes the task, whose constructor allocates the state with
  \<^verbatim>\<open>make_shared<state>(handle)\<close>; \<open>t\<close> is the address the allocator returns, one where
  no state lives.
\<close>

definition get_return_object :: "state_ptr \<Rightarrow> handle \<Rightarrow> 'r sys \<Rightarrow> 'r sys" where
  "get_return_object t h s = (if states s t = None then store t (new_state h) s else s)"

text \<open>\<^verbatim>\<open>get_state\<close>: \<open>None\<close> is the failure of \<^verbatim>\<open>assert(state)\<close>.\<close>

definition get_state :: "'r sys \<Rightarrow> state_ptr \<Rightarrow> state_ptr option" where
  "get_state s t = (case lock s t of None \<Rightarrow> None | Some st \<Rightarrow> Some t)"

text \<open>\<^verbatim>\<open>initial_suspend\<close> returns a \<^verbatim>\<open>ctask_scheduler\<close>, a \<^verbatim>\<open>suspend_always\<close> whose
  \<^verbatim>\<open>await_suspend\<close> schedules the promise's state on the provider's pool.\<close>

definition scheduler_await_suspend :: "state_ptr \<Rightarrow> 'r sys \<Rightarrow> 'r sys option" where
  "scheduler_await_suspend t s =
     (case get_state s t of
        None \<Rightarrow> None
      | Some t' \<Rightarrow> Some (schedule_on get_executor (State t') s))"

definition final_suspend :: "state_ptr \<Rightarrow> 'r sys \<Rightarrow> 'r sys" where
  "final_suspend t s =
     (case lock s t of None \<Rightarrow> s | Some st \<Rightarrow> store t (set_handle None st) s)"

text \<open>\<^verbatim>\<open>return_value\<close>: \<^verbatim>\<open>set_result\<close>, then \<^verbatim>\<open>resume_all_continuations\<close>. \<open>Inl\<close> is
  an exception that leaves the function.\<close>

definition return_value :: "state_ptr \<Rightarrow> 'r \<Rightarrow> 'r sys \<Rightarrow> exception + 'r sys" where
  "return_value t v s =
     (case lock s t of
        None \<Rightarrow> Inr s
      | Some st \<Rightarrow>
          (case set_result v st of
             Inl x \<Rightarrow> Inl x
           | Inr st' \<Rightarrow>
               Inr (resume_all_continuations (continuation_manager st') (store t st' s))))"

text \<open>\<^verbatim>\<open>unhandled_exception\<close>: \<^verbatim>\<open>set_exception(std::current_exception())\<close>, and
  nothing after it.\<close>

definition unhandled_exception :: "state_ptr \<Rightarrow> exception \<Rightarrow> 'r sys \<Rightarrow> exception + 'r sys" where
  "unhandled_exception t x s =
     (case lock s t of
        None \<Rightarrow> Inr s
      | Some st \<Rightarrow>
          (case set_exception x st of
             Inl x' \<Rightarrow> Inl x'
           | Inr st' \<Rightarrow> Inr (store t st' s)))"

text \<open>\<^verbatim>\<open>await_transform(std::string name)\<close> names the state and does not suspend;
  \<^verbatim>\<open>await_transform(other_task)\<close> wraps the other task in a \<^verbatim>\<open>ctask_awaiter\<close>, which
  holds a copy of it in \<^verbatim>\<open>task_\<close>.\<close>

definition await_transform_name :: "state_ptr \<Rightarrow> string \<Rightarrow> 'r sys \<Rightarrow> 'r sys" where
  "await_transform_name t n s =
     (case lock s t of None \<Rightarrow> s | Some st \<Rightarrow> store t (set_name n st) s)"

definition await_transform :: "state_ptr \<Rightarrow> state_ptr" where
  "await_transform other_task = other_task"

subsection \<open>The task awaiter\<close>

text \<open>The three functions of \<^verbatim>\<open>ctask_awaiter\<close>; \<open>t\<close> is its \<^verbatim>\<open>task_\<close>, \<open>h\<close> the handle
  of the awaiting coroutine.\<close>

definition await_ready :: "'r sys \<Rightarrow> state_ptr \<Rightarrow> bool" where
  "await_ready s t = ready s t"

definition await_suspend :: "state_ptr \<Rightarrow> handle \<Rightarrow> 'r sys \<Rightarrow> bool \<times> 'r sys" where
  "await_suspend t h s =
     (if ready s t then (False, s) else (True, ctask_register_continuation t h s))"

definition await_resume :: "'r sys \<Rightarrow> state_ptr \<Rightarrow> (exception + 'r) option" where
  "await_resume s t = get_result s t"

text \<open>
  The \<^verbatim>\<open>co_await\<close> expression, as the language defines it: when \<^verbatim>\<open>await_ready()\<close> is
  true the coroutine goes on at once with \<^verbatim>\<open>await_resume()\<close>; otherwise it is
  suspended and \<^verbatim>\<open>await_suspend(h)\<close> is called, and when that returns \<^verbatim>\<open>false\<close> the
  coroutine is resumed on the spot, again with \<^verbatim>\<open>await_resume()\<close>; when it returns
  \<^verbatim>\<open>true\<close> control goes back to whoever resumed the coroutine. \<open>co_await_suspend\<close> is
  the part after \<^verbatim>\<open>await_ready()\<close> has answered \<^verbatim>\<open>false\<close>; other threads can run
  between the two.
\<close>

datatype 'r awaited = Continues "(exception + 'r) option" | Suspended

definition co_await_suspend :: "state_ptr \<Rightarrow> handle \<Rightarrow> 'r sys \<Rightarrow> 'r awaited \<times> 'r sys" where
  "co_await_suspend t h s =
     (case await_suspend t h s of
        (False, s') \<Rightarrow> (Continues (await_resume s' t), s')
      | (True, s') \<Rightarrow> (Suspended, s'))"

definition co_await :: "state_ptr \<Rightarrow> handle \<Rightarrow> 'r sys \<Rightarrow> 'r awaited \<times> 'r sys" where
  "co_await t h s =
     (if await_ready s t then (Continues (await_resume s t), s) else co_await_suspend t h s)"

subsection \<open>The end of a task body\<close>

text \<open>
  A coroutine body ends with \<^verbatim>\<open>co_return v\<close> or with an exception that it does not
  catch. The language wraps the body as
  \<^verbatim>\<open>try { body } catch (...) { promise.unhandled_exception(); } co_await promise.final_suspend();\<close>
  where \<^verbatim>\<open>co_return v\<close> is \<^verbatim>\<open>promise.return_value(v)\<close> inside the \<^verbatim>\<open>try\<close>. \<open>Inl\<close> is
  an exception that leaves the coroutine, into the \<^verbatim>\<open>resume()\<close> that runs it.
\<close>

datatype 'r body_end = Co_return 'r | Throws exception

fun finish :: "state_ptr \<Rightarrow> 'r body_end \<Rightarrow> 'r sys \<Rightarrow> exception + 'r sys" where
  "finish t (Co_return v) s =
     (case return_value t v s of
        Inr s' \<Rightarrow> Inr (final_suspend t s')
      | Inl x \<Rightarrow>
          (case unhandled_exception t x s of
             Inr s' \<Rightarrow> Inr (final_suspend t s')
           | Inl x' \<Rightarrow> Inl x'))"
| "finish t (Throws x) s =
     (case unhandled_exception t x s of
        Inr s' \<Rightarrow> Inr (final_suspend t s')
      | Inl x' \<Rightarrow> Inl x')"

text \<open>Both \<^verbatim>\<open>execute()\<close> functions are \<^verbatim>\<open>noexcept\<close> and call \<^verbatim>\<open>resume()\<close> with no
  handler: an exception that leaves the coroutine ends the process in
  \<^verbatim>\<open>std::terminate\<close>. This is what the worker's loop sees of a resumed body that runs
  to its end.\<close>

datatype 'a dispatched = Returns 'a | Terminate

fun noexcept :: "exception + 'a \<Rightarrow> 'a dispatched" where
  "noexcept (Inr a) = Returns a"
| "noexcept (Inl x) = Terminate"

subsection \<open>Executions of the whole system\<close>

text \<open>
  Every function of the source that changes the state is an operation; an execution is
  a list of operations, in the order in which they take effect, by whatever threads.
  An operation that throws, or whose assertion fails, leaves the state as it was.
  \<open>Destroy t\<close> is the end of the state at \<open>t\<close>, when the last \<^verbatim>\<open>shared_ptr\<close> to it goes.
\<close>

datatype 'r op =
    Pool executor_ptr "executable eop"
  | Register state_ptr continuation
  | Resume_all state_ptr
  | Set_result state_ptr 'r
  | Set_exception state_ptr exception
  | Set_handle state_ptr "handle option"
  | Set_name state_ptr string
  | Task_register_append state_ptr handle
  | Task_register_check state_ptr
  | Task_register state_ptr handle
  | Await_suspend state_ptr handle
  | Get_return_object state_ptr handle
  | Initial_suspend state_ptr
  | Return_value state_ptr 'r
  | Unhandled_exception state_ptr exception
  | Final_suspend state_ptr
  | Finish state_ptr "'r body_end"
  | Destroy state_ptr

definition on_state :: "state_ptr \<Rightarrow> ('r state \<Rightarrow> 'r state) \<Rightarrow> 'r sys \<Rightarrow> 'r sys" where
  "on_state t f s = (case states s t of None \<Rightarrow> s | Some st \<Rightarrow> store t (f st) s)"

definition on_state_throwing ::
    "state_ptr \<Rightarrow> ('r state \<Rightarrow> exception + 'r state) \<Rightarrow> 'r sys \<Rightarrow> 'r sys" where
  "on_state_throwing t f s =
     (case states s t of
        None \<Rightarrow> s
      | Some st \<Rightarrow> (case f st of Inl x \<Rightarrow> s | Inr st' \<Rightarrow> store t st' s))"

fun unless_thrown :: "'r sys \<Rightarrow> exception + 'r sys \<Rightarrow> 'r sys" where
  "unless_thrown s (Inr s') = s'"
| "unless_thrown s (Inl x) = s"

fun pool_op :: "executor_ptr \<Rightarrow> executable eop \<Rightarrow> 'r sys \<Rightarrow> 'r sys" where
  "pool_op p (Schedule x) s = schedule_on p x s"
| "pool_op p (Run_thread i) s = worker_step p i s"
| "pool_op p (Request_stop i) s =
     s\<lparr>executors := (executors s)(p := request_stop i (executors s p))\<rparr>"
| "pool_op p (Spurious_wakeup i) s =
     s\<lparr>executors := (executors s)(p := spurious_wakeup i (executors s p))\<rparr>"

fun apply_op :: "'r sys \<Rightarrow> 'r op \<Rightarrow> 'r sys" where
  "apply_op s (Pool p eo) = pool_op p eo s"
| "apply_op s (Register t c) =
     on_state t (\<lambda>st. st\<lparr>continuation_manager :=
                            register_continuation c (continuation_manager st)\<rparr>) s"
| "apply_op s (Resume_all t) =
     (case states s t of
        None \<Rightarrow> s
      | Some st \<Rightarrow> resume_all_continuations (continuation_manager st) s)"
| "apply_op s (Set_result t v) = on_state_throwing t (set_result v) s"
| "apply_op s (Set_exception t x) = on_state_throwing t (set_exception x) s"
| "apply_op s (Set_handle t h) = on_state t (set_handle h) s"
| "apply_op s (Set_name t n) = on_state t (set_name n) s"
| "apply_op s (Task_register_append t h) = register_continuation_append t h s"
| "apply_op s (Task_register_check t) = register_continuation_check t s"
| "apply_op s (Task_register t h) = ctask_register_continuation t h s"
| "apply_op s (Await_suspend t h) = snd (await_suspend t h s)"
| "apply_op s (Get_return_object t h) = get_return_object t h s"
| "apply_op s (Initial_suspend t) =
     (case scheduler_await_suspend t s of None \<Rightarrow> s | Some s' \<Rightarrow> s')"
| "apply_op s (Return_value t v) = unless_thrown s (return_value t v s)"
| "apply_op s (Unhandled_exception t x) = unless_thrown s (unhandled_exception t x s)"
| "apply_op s (Final_suspend t) = final_suspend t s"
| "apply_op s (Finish t b) = unless_thrown s (finish t b s)"
| "apply_op s (Destroy t) = s\<lparr>states := (states s)(t := None)\<rparr>"

text \<open>The operations that write the result of the task at \<open>t\<close> or end its state. In
  the source the result is written only by \<^verbatim>\<open>return_value\<close> and
  \<^verbatim>\<open>unhandled_exception\<close> of the task's own promise, at the end of its body.\<close>

fun ends_task :: "state_ptr \<Rightarrow> 'r op \<Rightarrow> bool" where
  "ends_task t (Set_result t' v) = (t' = t)"
| "ends_task t (Set_exception t' x) = (t' = t)"
| "ends_task t (Return_value t' v) = (t' = t)"
| "ends_task t (Unhandled_exception t' x) = (t' = t)"
| "ends_task t (Finish t' b) = (t' = t)"
| "ends_task t (Destroy t') = (t' = t)"
| "ends_task t (Pool p eo) = False"
| "ends_task t (Register t' c) = False"
| "ends_task t (Resume_all t') = False"
| "ends_task t (Set_handle t' h) = False"
| "ends_task t (Set_name t' n) = False"
| "ends_task t (Task_register_append t' h) = False"
| "ends_task t (Task_register_check t') = False"
| "ends_task t (Task_register t' h) = False"
| "ends_task t (Await_suspend t' h) = False"
| "ends_task t (Get_return_object t' h) = False"
| "ends_task t (Initial_suspend t') = False"
| "ends_task t (Final_suspend t') = False"

text \<open>The state at \<open>t\<close> is alive and its result is not written.\<close>

definition unwritten :: "'r sys \<Rightarrow> state_ptr \<Rightarrow> bool" where
  "unwritten s t = (case states s t of None \<Rightarrow> False | Some st \<Rightarrow> result st = None)"

definition run :: "'r op list \<Rightarrow> 'r sys \<Rightarrow> 'r sys" where
  "run ops s = foldl apply_op s ops"

text \<open>The wait list of the task at \<open>t\<close> and the queue of the pool at \<open>p\<close>.\<close>

definition continuations_of :: "'r sys \<Rightarrow> state_ptr \<Rightarrow> continuation list" where
  "continuations_of s t =
     (case states s t of None \<Rightarrow> [] | Some st \<Rightarrow> continuations (continuation_manager st))"

definition queue_of :: "'r sys \<Rightarrow> executor_ptr \<Rightarrow> executable list" where
  "queue_of s p = queue (executors s p)"

text \<open>The resumers that \<^verbatim>\<open>resume_all_continuations\<close> pushes to the pool at \<open>p\<close>.\<close>

definition resumers_for :: "executor_ptr \<Rightarrow> continuation list \<Rightarrow> executable list" where
  "resumers_for p cs = map (\<lambda>c. Resumer (c_handle c)) (filter (\<lambda>c. c_executor c = p) cs)"

subsection \<open>Two states of the example\<close>

text \<open>A task whose state lives at address 1 and whose frame is 10, as
  \<^verbatim>\<open>get_return_object\<close> leaves it, and the same task after its body has returned 8.\<close>

definition example_task :: "int sys" where
  "example_task = get_return_object 1 10 initial_sys"

definition example_completed :: "int sys" where
  "example_completed = apply_op example_task (Finish 1 (Co_return 8))"

section \<open>Properties of the executor\<close>

subsection \<open>Counting over the workers\<close>





lemma length_notify_one [simp]: "length (notify_one ws) = length ws"
  by (induction ws) auto

lemma length_notify_all [simp]: "length (notify_all ws) = length ws"
  by (simp add: notify_all_def)

subsection \<open>The queue is first in, first out, and nothing is lost or run twice\<close>







subsection \<open>No wakeup is lost while no stop is requested\<close>












lemma executor_init:
  "unstopped (executor n) \<and> idle (executor n) = 0 \<and> woken (executor n) = 0
   \<and> in_flight (executor n) = [] \<and> length (threads (executor n)) = n"
  by (induction n) (auto simp: executor_def unstopped_def idle_def woken_def in_flight_def)

lemma length_threads_step: "length (threads (exec_eop e op)) = length (threads e)"
  by (cases op)
     (auto simp: schedule_def run_thread_def set_pc_def take_next_def request_stop_def
        spurious_wakeup_def split: position.splits list.splits)

lemma length_threads_run: "length (threads (run_pool ops e)) = length (threads e)"
  by (induction ops rule: rev_induct) (simp_all add: run_pool_def length_threads_step)


subsection \<open>The workers drain the queue\<close>













subsection \<open>How a worker leaves its loop\<close>

lemma notify_one_nth:
  "i < length ws \<Longrightarrow>
   notify_one ws ! i = ws ! i \<or> (pc (ws ! i) = Waiting \<and> notify_one ws ! i = (ws ! i)\<lparr>pc := Notified\<rparr>)"
proof (induction ws arbitrary: i)
  case Nil
  then show ?case by simp
next
  case (Cons a ws)
  show ?case
  proof (cases i)
    case 0
    then show ?thesis by simp
  next
    case (Suc j)
    with Cons.prems have "j < length ws" by simp
    from Cons.IH[OF this] show ?thesis using Suc by auto
  qed
qed

lemma notify_all_nth:
  "i < length ws \<Longrightarrow>
   notify_all ws ! i = (if pc (ws ! i) = Waiting then (ws ! i)\<lparr>pc := Notified\<rparr> else ws ! i)"
  by (simp add: notify_all_def)

text \<open>How one step changes worker i: its position and its stop state.\<close>

lemma step_other:
  assumes "i < length (threads e)" "op \<noteq> Run_thread i"
  shows "pc (threads (exec_eop e op) ! i) = pc (threads e ! i) \<or>
         (pc (threads e ! i) = Waiting \<and> pc (threads (exec_eop e op) ! i) = Notified)"
proof (cases op)
  case (Schedule x)
  with notify_one_nth[OF assms(1)] show ?thesis by (auto simp: schedule_def)
next
  case (Run_thread j)
  with assms have "j \<noteq> i" by simp
  then show ?thesis using Run_thread assms(1)
    by (auto simp: run_thread_def set_pc_def take_next_def split: position.splits list.splits)
next
  case (Request_stop j)
  show ?thesis
  proof (cases "j < length (threads e)")
    case False
    then show ?thesis using Request_stop by (simp add: request_stop_def)
  next
    case True
    have l: "i < length ((threads e)[j := (threads e ! j)\<lparr>stop_requested := True\<rparr>])"
      using assms(1) by simp
    have p: "pc (((threads e)[j := (threads e ! j)\<lparr>stop_requested := True\<rparr>]) ! i) = pc (threads e ! i)"
      using assms(1) by (cases "i = j") simp_all
    show ?thesis using Request_stop True p notify_all_nth[OF l]
      by (auto simp: request_stop_def)
  qed
next
  case (Spurious_wakeup j)
  then show ?thesis using assms(1)
    by (cases "i = j") (auto simp: spurious_wakeup_def set_pc_def)
qed

lemma stop_monotone:
  assumes "i < length (threads e)" "stop_requested (threads e ! i)"
  shows "stop_requested (threads (exec_eop e op) ! i)"
proof (cases op)
  case (Schedule x)
  with notify_one_nth[OF assms(1)] assms(2) show ?thesis by (auto simp: schedule_def)
next
  case (Run_thread j)
  then show ?thesis using assms
    by (cases "i = j")
       (auto simp: run_thread_def set_pc_def take_next_def split: position.splits list.splits)
next
  case (Request_stop j)
  show ?thesis
  proof (cases "j < length (threads e)")
    case False
    then show ?thesis using Request_stop assms by (simp add: request_stop_def)
  next
    case True
    have l: "i < length ((threads e)[j := (threads e ! j)\<lparr>stop_requested := True\<rparr>])"
      using assms(1) by simp
    have p: "stop_requested (((threads e)[j := (threads e ! j)\<lparr>stop_requested := True\<rparr>]) ! i)"
      using assms by (cases "i = j") simp_all
    show ?thesis using Request_stop True p notify_all_nth[OF l]
      by (auto simp: request_stop_def)
  qed
next
  case (Spurious_wakeup j)
  then show ?thesis using assms
    by (cases "i = j") (auto simp: spurious_wakeup_def set_pc_def)
qed

lemma own_step:
  assumes "i < length (threads e)"
  shows "pc (threads (run_thread i e) ! i) =
           (case pc (threads e ! i) of
              At_lock \<Rightarrow> (case queue e of [] \<Rightarrow> if stop_requested (threads e ! i) then Exited else Waiting
                                        | nxt # rest \<Rightarrow> Executing nxt)
            | Waiting \<Rightarrow> Waiting
            | Notified \<Rightarrow> (if stop_requested (threads e ! i) then Exited
                            else (case queue e of [] \<Rightarrow> Waiting | nxt # rest \<Rightarrow> Executing nxt))
            | Executing x \<Rightarrow> At_lock
            | Exited \<Rightarrow> Exited)"
  using assms
  by (auto simp: run_thread_def set_pc_def take_next_def split: position.splits list.splits)

lemma enter_wait_step:
  assumes "i < length (threads e)" "past_empty_test (pc (threads (exec_eop e op) ! i))"
          "\<not> past_empty_test (pc (threads e ! i))"
  shows "op = Run_thread i \<and> pc (threads e ! i) = At_lock \<and> queue e = []"
proof (cases "op = Run_thread i")
  case False
  from step_other[OF assms(1) False] assms(2,3) show ?thesis by auto
next
  case True
  with own_step[OF assms(1)] assms(2,3) show ?thesis
    by (cases "pc (threads e ! i)"; cases "queue e") (auto split: if_splits)
qed

lemma exit_step:
  assumes "i < length (threads e)" "pc (threads (exec_eop e op) ! i) = Exited"
          "pc (threads e ! i) \<noteq> Exited"
  shows "op = Run_thread i \<and> stop_requested (threads e ! i)"
proof (cases "op = Run_thread i")
  case False
  from step_other[OF assms(1) False] assms(2,3) show ?thesis by auto
next
  case True
  with own_step[OF assms(1)] assms(2,3) show ?thesis
    by (cases "pc (threads e ! i)"; cases "queue e") (auto split: if_splits)
qed

lemma exited_stop_run:
  assumes "i < n" "pc (threads (run_pool ops (executor n)) ! i) = Exited"
  shows "stop_requested (threads (run_pool ops (executor n)) ! i)"
  using assms(2)
proof (induction ops rule: rev_induct)
  case Nil
  then show ?case using assms(1) by (simp add: run_pool_def executor_def)
next
  case (snoc op ops)
  let ?e = "run_pool ops (executor n :: 'a executor)"
  have r: "run_pool (ops @ [op]) (executor n :: 'a executor) = exec_eop ?e op"
    by (simp add: run_pool_def)
  have l: "i < length (threads ?e)" using assms(1) by (simp add: length_threads_run executor_init)
  show ?case
  proof (cases "pc (threads ?e ! i) = Exited")
    case True
    from stop_monotone[OF l snoc.IH[OF True]] show ?thesis unfolding r .
  next
    case False
    from exit_step[OF l _ False] snoc.prems r have "stop_requested (threads ?e ! i)" by simp
    from stop_monotone[OF l this] show ?thesis unfolding r .
  qed
qed

lemma saw_empty_run:
  assumes "i < n" "past_empty_test (pc (threads (run_pool ops (executor n)) ! i))"
  shows "\<exists>ops1 ops2. ops = ops1 @ Run_thread i # ops2 \<and>
           pc (threads (run_pool ops1 (executor n)) ! i) = At_lock \<and>
           queue (run_pool ops1 (executor n)) = [] \<and>
           (\<forall>k\<le>length ops2.
              past_empty_test (pc (threads (run_pool (ops1 @ Run_thread i # take k ops2) (executor n)) ! i)))"
  using assms(2)
proof (induction ops rule: rev_induct)
  case Nil
  then show ?case using assms(1) by (simp add: run_pool_def executor_def)
next
  case (snoc op ops)
  let ?e = "run_pool ops (executor n :: 'a executor)"
  have r: "run_pool (ops @ [op]) (executor n :: 'a executor) = exec_eop ?e op"
    by (simp add: run_pool_def)
  have l: "i < length (threads ?e)" using assms(1) by (simp add: length_threads_run executor_init)
  show ?case
  proof (cases "past_empty_test (pc (threads ?e ! i))")
    case True
    from snoc.IH[OF True] obtain ops1 ops2 where
      s: "ops = ops1 @ Run_thread i # ops2"
         "pc (threads (run_pool ops1 (executor n :: 'a executor)) ! i) = At_lock"
         "queue (run_pool ops1 (executor n :: 'a executor)) = []"
         "\<forall>k\<le>length ops2.
              past_empty_test (pc (threads (run_pool (ops1 @ Run_thread i # take k ops2) (executor n :: 'a executor)) ! i))"
      by blast
    have "\<forall>k\<le>length (ops2 @ [op]).
              past_empty_test (pc (threads (run_pool (ops1 @ Run_thread i # take k (ops2 @ [op])) (executor n :: 'a executor)) ! i))"
    proof (intro allI impI)
      fix k assume k: "k \<le> length (ops2 @ [op])"
      show "past_empty_test (pc (threads (run_pool (ops1 @ Run_thread i # take k (ops2 @ [op])) (executor n :: 'a executor)) ! i))"
      proof (cases "k \<le> length ops2")
        case True
        then show ?thesis using s(4) by simp
      next
        case False
        with k have "take k (ops2 @ [op]) = ops2 @ [op]" by simp
        then show ?thesis using snoc.prems s(1) by simp
      qed
    qed
    with s(1,2,3) have "ops @ [op] = ops1 @ Run_thread i # (ops2 @ [op]) \<and>
           pc (threads (run_pool ops1 (executor n :: 'a executor)) ! i) = At_lock \<and>
           queue (run_pool ops1 (executor n :: 'a executor)) = [] \<and>
           (\<forall>k\<le>length (ops2 @ [op]).
              past_empty_test (pc (threads (run_pool (ops1 @ Run_thread i # take k (ops2 @ [op])) (executor n :: 'a executor)) ! i)))"
      by simp
    then show ?thesis by blast
  next
    case False
    from enter_wait_step[OF l _ False] snoc.prems r
    have e: "op = Run_thread i" "pc (threads ?e ! i) = At_lock" "queue ?e = []" by simp_all
    have "ops @ [op] = ops @ Run_thread i # [] \<and>
           pc (threads ?e ! i) = At_lock \<and> queue ?e = [] \<and>
           (\<forall>k\<le>length ([] :: 'a eop list).
              past_empty_test (pc (threads (run_pool (ops @ Run_thread i # take k []) (executor n :: 'a executor)) ! i)))"
      using e snoc.prems by simp
    then show ?thesis by blast
  qed
qed

subsection \<open>Shutdown\<close>

lemma request_stop_all_run:
  "request_stop_all e = run_pool (map Request_stop [0..<length (threads e)]) e"
  by (simp add: request_stop_all_def run_pool_def foldl_map)

lemma request_stop_keeps:
  "queue (request_stop i e) = queue e \<and> executed (request_stop i e) = executed e \<and>
   dequeued (request_stop i e) = dequeued e \<and> length (threads (request_stop i e)) = length (threads e)"
  by (simp add: request_stop_def)

lemma stops_keep:
  "queue (run_pool (map Request_stop js) e) = queue e \<and>
   executed (run_pool (map Request_stop js) e) = executed e \<and>
   dequeued (run_pool (map Request_stop js) e) = dequeued e"
  by (induction js arbitrary: e) (simp_all add: run_pool_def request_stop_keeps)

lemma request_stop_sets:
  "i < length (threads e) \<Longrightarrow> stop_requested (threads (request_stop i e) ! i)"
  by (simp add: request_stop_def notify_all_nth)

lemma stops_upto:
  "k \<le> length (threads e) \<Longrightarrow> j < k \<Longrightarrow>
   stop_requested (threads (run_pool (map Request_stop [0..<k]) e) ! j)"
proof (induction k)
  case 0
  then show ?case by simp
next
  case (Suc k)
  let ?e = "run_pool (map Request_stop [0..<k]) e"
  have r: "run_pool (map Request_stop [0..<Suc k]) e = exec_eop ?e (Request_stop k)"
    by (simp add: run_pool_def)
  have l: "length (threads ?e) = length (threads e)" by (simp add: length_threads_run)
  show ?case
  proof (cases "j = k")
    case True
    with Suc.prems l show ?thesis unfolding r by (simp add: request_stop_sets)
  next
    case False
    with Suc have "stop_requested (threads ?e ! j)" by simp
    moreover have "j < length (threads ?e)" using Suc.prems l by simp
    ultimately show ?thesis unfolding r using stop_monotone by blast
  qed
qed

lemma request_stop_all_stops: "list_all stop_requested (threads (request_stop_all e))"
proof -
  have "\<forall>j < length (threads (request_stop_all e)). stop_requested (threads (request_stop_all e) ! j)"
    using stops_upto[of "length (threads e)" e]
    by (simp add: request_stop_all_run length_threads_run)
  then show ?thesis by (simp add: list_all_length)
qed

lemma executing_kept_run:
  assumes "i < length (threads e)" "pc (threads e ! i) = Executing x" "Run_thread i \<notin> set ops"
  shows "pc (threads (run_pool ops e) ! i) = Executing x"
  using assms(3)
proof (induction ops rule: rev_induct)
  case Nil
  then show ?case using assms by (simp add: run_pool_def)
next
  case (snoc op ops)
  let ?e = "run_pool ops e"
  have r: "run_pool (ops @ [op]) e = exec_eop ?e op" by (simp add: run_pool_def)
  have l: "i < length (threads ?e)" using assms(1) by (simp add: length_threads_run)
  from snoc have ih: "pc (threads ?e ! i) = Executing x" and ne: "op \<noteq> Run_thread i" by auto
  from step_other[OF l ne] ih show ?case unfolding r by auto
qed

lemma executing_kept_stop_all:
  assumes "i < length (threads e)" "pc (threads e ! i) = Executing x"
  shows "pc (threads (request_stop_all e) ! i) = Executing x"
  unfolding request_stop_all_run
  by (rule executing_kept_run[OF assms]) auto

lemma executing_finishes:
  assumes "i < length (threads e)" "pc (threads e ! i) = Executing x"
  shows "executed (run_thread i e) = executed e @ [x] \<and> pc (threads (run_thread i e) ! i) = At_lock
         \<and> queue (run_thread i e) = queue e \<and> dequeued (run_thread i e) = dequeued e"
  using assms by (simp add: run_thread_def set_pc_def)

lemma leftover_example:
  "joined (run_thread 0 (request_stop_all (run_pool [Run_thread 0, Schedule x] (executor 1)))) \<and>
   queue (run_thread 0 (request_stop_all (run_pool [Run_thread 0, Schedule x] (executor 1)))) = [x] \<and>
   dequeued (run_thread 0 (request_stop_all (run_pool [Run_thread 0, Schedule x] (executor 1)))) = []"
  by (simp add: joined_def request_stop_all_def run_pool_def executor_def run_thread_def
        set_pc_def schedule_def request_stop_def notify_all_def)

lemma exit_step_shape:
  assumes "i < length (threads e)" "pc (threads (exec_eop e op) ! i) = Exited"
          "pc (threads e ! i) \<noteq> Exited"
  shows "op = Run_thread i \<and> stop_requested (threads e ! i) \<and>
         (pc (threads e ! i) = Notified \<or> pc (threads e ! i) = At_lock \<and> queue e = [])"
proof (cases "op = Run_thread i")
  case False
  from step_other[OF assms(1) False] assms(2,3) show ?thesis by auto
next
  case True
  with own_step[OF assms(1)] assms(2,3) show ?thesis
    by (cases "pc (threads e ! i)"; cases "queue e") (auto split: if_splits)
qed

lemmas pool_eval = run_pool_def executor_def schedule_def run_thread_def set_pc_def take_next_def
  request_stop_def request_stop_all_def spurious_wakeup_def notify_all_def

text \<open>
  Claim C6, against the claim as stated: a worker leaves its loop while the queue is not
  empty. A pool of one worker: the worker finds the queue empty and sleeps in the wait;
  item 5 is submitted, which notifies the worker; stop is requested before the worker
  has run. The worker is then inside the wait with stop requested and item 5 queued; its
  next step leaves the loop, and item 5 is still queued in the joined pool. After the
  wait the source tests the stop token alone.
\<close>

theorem worker_exits_with_item_queued:
  "pc (threads (run_pool [Run_thread 0, Schedule (5::nat), Request_stop 0] (executor 1)) ! 0) = Notified \<and>
   stop_requested (threads (run_pool [Run_thread 0, Schedule (5::nat), Request_stop 0] (executor 1)) ! 0) \<and>
   queue (run_pool [Run_thread 0, Schedule (5::nat), Request_stop 0] (executor 1)) = [5] \<and>
   pc (threads (run_thread 0 (run_pool [Run_thread 0, Schedule (5::nat), Request_stop 0] (executor 1))) ! 0)
     = Exited \<and>
   queue (run_thread 0 (run_pool [Run_thread 0, Schedule (5::nat), Request_stop 0] (executor 1))) = [5] \<and>
   dequeued (run_thread 0 (run_pool [Run_thread 0, Schedule (5::nat), Request_stop 0] (executor 1))) = [] \<and>
   joined (run_thread 0 (run_pool [Run_thread 0, Schedule (5::nat), Request_stop 0] (executor 1)))"
  by (simp add: pool_eval joined_def)

text \<open>
  Claim C6, as amended. After the destructor has requested stop on every worker
  (\<open>request_stop_all\<close>), a worker that has dequeued an item still runs it to its end:
  neither the stop requests nor any step of another thread moves it from \<open>Executing x\<close>,
  and its own next step is the return of \<^verbatim>\<open>execute()\<close>. A worker leaves its loop only by
  a step of its own, with its stop requested, and either at the loop head with the queue
  empty or from inside the wait, whatever the queue holds then. So a worker that has
  left its loop has its stop requested and, at the head of the iteration it left from,
  saw the queue empty; it has been in the wait or out of the loop since. Items that are
  still queued need not run: in the last three lines a pool of one worker is joined with
  the item \<open>y\<close> in its queue, never dequeued. \<open>e\<close> is any state the pool can reach, \<open>e'\<close>
  any state at all.
\<close>

theorem shutdown_finishes_dequeued_items_and_exits_on_stop_after_empty_queue:
  "(let e = run_pool ops (executor n) in
      list_all stop_requested (threads (request_stop_all e)) \<and>
      queue (request_stop_all e) = queue e \<and>
      (i < n \<and> pc (threads e ! i) = Executing x \<longrightarrow>
         pc (threads (request_stop_all e) ! i) = Executing x \<and>
         (op \<noteq> Run_thread i \<longrightarrow> pc (threads (exec_eop e op) ! i) = Executing x) \<and>
         executed (run_thread i (request_stop_all e)) = executed e @ [x] \<and>
         pc (threads (run_thread i (request_stop_all e)) ! i) = At_lock) \<and>
      (j < n \<and> pc (threads e ! j) = Exited \<longrightarrow>
         stop_requested (threads e ! j) \<and>
         (\<exists>ops1 ops2.
            ops = ops1 @ Run_thread j # ops2 \<and>
            pc (threads (run_pool ops1 (executor n)) ! j) = At_lock \<and>
            queue (run_pool ops1 (executor n)) = [] \<and>
            (\<forall>k\<le>length ops2.
               past_empty_test
                 (pc (threads (run_pool (ops1 @ Run_thread j # take k ops2) (executor n)) ! j)))))) \<and>
   (w < length (threads e') \<and> pc (threads e' ! w) \<noteq> Exited \<and>
    pc (threads (exec_eop e' op') ! w) = Exited \<longrightarrow>
      op' = Run_thread w \<and> stop_requested (threads e' ! w) \<and>
      (pc (threads e' ! w) = Notified \<or> pc (threads e' ! w) = At_lock \<and> queue e' = [])) \<and>
   joined (run_thread 0 (request_stop_all (run_pool [Run_thread 0, Schedule y] (executor 1)))) \<and>
   queue (run_thread 0 (request_stop_all (run_pool [Run_thread 0, Schedule y] (executor 1)))) = [y] \<and>
   dequeued (run_thread 0 (request_stop_all (run_pool [Run_thread 0, Schedule y] (executor 1)))) = []"
proof -
  let ?e = "run_pool ops (executor n :: 'a executor)"
  have len: "length (threads ?e) = n" by (simp add: length_threads_run executor_init)
  have a: "list_all stop_requested (threads (request_stop_all ?e))"
    by (rule request_stop_all_stops)
  have b: "queue (request_stop_all ?e) = queue ?e"
    by (simp add: request_stop_all_run stops_keep)
  have c: "pc (threads (request_stop_all ?e) ! i) = Executing x \<and>
         (op \<noteq> Run_thread i \<longrightarrow> pc (threads (exec_eop ?e op) ! i) = Executing x) \<and>
         executed (run_thread i (request_stop_all ?e)) = executed ?e @ [x] \<and>
         pc (threads (run_thread i (request_stop_all ?e)) ! i) = At_lock"
    if h: "i < n" "pc (threads ?e ! i) = Executing x"
  proof -
    from h len have l: "i < length (threads ?e)" by simp
    have k: "pc (threads (request_stop_all ?e) ! i) = Executing x"
      by (rule executing_kept_stop_all[OF l h(2)])
    have l2: "i < length (threads (request_stop_all ?e))"
      using l by (simp add: request_stop_all_run length_threads_run)
    have e2: "executed (request_stop_all ?e) = executed ?e"
      by (simp add: request_stop_all_run stops_keep)
    from executing_finishes[OF l2 k] e2
    have f: "executed (run_thread i (request_stop_all ?e)) = executed ?e @ [x]"
            "pc (threads (run_thread i (request_stop_all ?e)) ! i) = At_lock" by simp_all
    have o: "op \<noteq> Run_thread i \<longrightarrow> pc (threads (exec_eop ?e op) ! i) = Executing x"
      using step_other[OF l, of op] h(2) by auto
    from k o f show ?thesis by simp
  qed
  have d: "stop_requested (threads ?e ! j) \<and>
         (\<exists>ops1 ops2.
            ops = ops1 @ Run_thread j # ops2 \<and>
            pc (threads (run_pool ops1 (executor n :: 'a executor)) ! j) = At_lock \<and>
            queue (run_pool ops1 (executor n :: 'a executor)) = [] \<and>
            (\<forall>k\<le>length ops2.
               past_empty_test
                 (pc (threads (run_pool (ops1 @ Run_thread j # take k ops2) (executor n :: 'a executor)) ! j))))"
    if h: "j < n" "pc (threads ?e ! j) = Exited"
  proof -
    from h(2) have p: "past_empty_test (pc (threads ?e ! j))" by simp
    from exited_stop_run[OF h] saw_empty_run[OF h(1) p] show ?thesis by simp
  qed
  have x: "w < length (threads e') \<and> pc (threads e' ! w) \<noteq> Exited \<and>
    pc (threads (exec_eop e' op') ! w) = Exited \<longrightarrow>
      op' = Run_thread w \<and> stop_requested (threads e' ! w) \<and>
      (pc (threads e' ! w) = Notified \<or> pc (threads e' ! w) = At_lock \<and> queue e' = [])"
    using exit_step_shape[of w e' op'] by blast
  from a b c d x leftover_example[of y] show ?thesis unfolding Let_def by blast
qed


text \<open>The theorem at a pool of two workers, where worker 1 is executing item 7 while
  worker 0 has left its loop, and at the step of a pool of one worker that leaves the
  loop with item 5 queued.\<close>

theorem shutdown_witness:
  "(1::nat) < 2 \<and>
   pc (threads (run_pool [Schedule 7, Run_thread 1, Run_thread 0, Request_stop 0, Run_thread 0]
                  (executor 2)) ! 1) = Executing (7::nat) \<and>
   Request_stop 1 \<noteq> (Run_thread 1 :: nat eop) \<and>
   pc (threads (exec_eop (run_pool [Schedule 7, Run_thread 1, Run_thread 0, Request_stop 0, Run_thread 0]
                  (executor 2)) (Request_stop 1)) ! 1) = Executing (7::nat) \<and>
   executed (run_thread 1 (request_stop_all
       (run_pool [Schedule 7, Run_thread 1, Run_thread 0, Request_stop 0, Run_thread 0]
                  (executor 2)))) = [7::nat] \<and>
   (0::nat) < 2 \<and>
   pc (threads (run_pool [Schedule (7::nat), Run_thread 1, Run_thread 0, Request_stop 0, Run_thread 0]
                  (executor 2)) ! 0) = Exited \<and>
   stop_requested (threads (run_pool [Schedule (7::nat), Run_thread 1, Run_thread 0, Request_stop 0,
                  Run_thread 0] (executor 2)) ! 0) \<and>
   (\<exists>ops1 ops2.
      [Schedule (7::nat), Run_thread 1, Run_thread 0, Request_stop 0, Run_thread 0]
         = ops1 @ Run_thread 0 # ops2 \<and>
      pc (threads (run_pool ops1 (executor 2)) ! 0) = At_lock \<and>
      queue (run_pool ops1 (executor 2)) = [] \<and>
      (\<forall>k\<le>length ops2.
         past_empty_test (pc (threads (run_pool (ops1 @ Run_thread 0 # take k ops2) (executor 2)) ! 0)))) \<and>
   0 < length (threads (run_pool [Run_thread 0, Schedule (5::nat), Request_stop 0] (executor 1))) \<and>
   pc (threads (run_pool [Run_thread 0, Schedule (5::nat), Request_stop 0] (executor 1)) ! 0) \<noteq> Exited \<and>
   pc (threads (exec_eop (run_pool [Run_thread 0, Schedule (5::nat), Request_stop 0] (executor 1))
                  (Run_thread 0)) ! 0) = Exited \<and>
   stop_requested (threads (run_pool [Run_thread 0, Schedule (5::nat), Request_stop 0] (executor 1)) ! 0) \<and>
   (pc (threads (run_pool [Run_thread 0, Schedule (5::nat), Request_stop 0] (executor 1)) ! 0) = Notified \<or>
    pc (threads (run_pool [Run_thread 0, Schedule (5::nat), Request_stop 0] (executor 1)) ! 0) = At_lock \<and>
    queue (run_pool [Run_thread 0, Schedule (5::nat), Request_stop 0] (executor 1)) = [])"
proof -
  let ?ops = "[Schedule (7::nat), Run_thread 1, Run_thread 0, Request_stop 0, Run_thread 0]"
  let ?e = "run_pool ?ops (executor 2)"
  let ?e' = "run_pool [Run_thread 0, Schedule (5::nat), Request_stop 0] (executor 1)"
  have h4: "0 < length (threads ?e') \<and> pc (threads ?e' ! 0) \<noteq> Exited \<and>
            pc (threads (exec_eop ?e' (Run_thread 0)) ! 0) = Exited"
    by (simp add: pool_eval)
  have h1: "(1::nat) < 2 \<and> pc (threads ?e ! 1) = Executing 7"
    by (simp add: pool_eval numeral_2_eq_2)
  have h2: "Request_stop 1 \<noteq> (Run_thread 1 :: nat eop)" by simp
  have h3: "(0::nat) < 2 \<and> pc (threads ?e ! 0) = Exited"
    by (simp add: pool_eval numeral_2_eq_2)
  have e0: "executed ?e = []"
    by (simp add: pool_eval numeral_2_eq_2)
  note t = shutdown_finishes_dequeued_items_and_exits_on_stop_after_empty_queue
             [where ops = ?ops and n = 2 and i = 1 and x = 7 and op = "Request_stop 1" and j = 0
                and w = 0 and e' = ?e' and op' = "Run_thread 0" and y = 9, unfolded Let_def]
  from t h1 h2 have a: "pc (threads (exec_eop ?e (Request_stop 1)) ! 1) = Executing 7"
    by blast
  from t h1 have "executed (run_thread 1 (request_stop_all ?e)) = executed ?e @ [7]"
    by blast
  then have b: "executed (run_thread 1 (request_stop_all ?e)) = [7]"
    by (simp only: e0 append_Nil)
  from t h3 have c: "stop_requested (threads ?e ! 0) \<and>
   (\<exists>ops1 ops2.
      ?ops = ops1 @ Run_thread 0 # ops2 \<and>
      pc (threads (run_pool ops1 (executor 2)) ! 0) = At_lock \<and>
      queue (run_pool ops1 (executor 2)) = [] \<and>
      (\<forall>k\<le>length ops2.
         past_empty_test (pc (threads (run_pool (ops1 @ Run_thread 0 # take k ops2) (executor 2)) ! 0))))"
    by blast
  from t h4 have d: "stop_requested (threads ?e' ! 0) \<and>
      (pc (threads ?e' ! 0) = Notified \<or> pc (threads ?e' ! 0) = At_lock \<and> queue ?e' = [])"
    by blast
  from h1 h2 h3 h4 a b c d show ?thesis by blast
qed

subsection \<open>Submission\<close>

lemma blocked_step: "blocked e op \<Longrightarrow> exec_eop e op = e"
  by (cases op) (auto simp: run_thread_def)




section \<open>Properties of the continuation manager and the task\<close>

subsection \<open>What the operations do to the wait list\<close>

lemma store_simps [simp]:
  "states (store t st s) = (states s)(t := Some st)"
  "executors (store t st s) = executors s"
  "resumed (store t st s) = resumed s"
  by (simp_all add: store_def)

lemma resume_all_fold:
  "states (foldl (\<lambda>s' c. resume_continuation c s') s cs) = states s \<and>
   resumed (foldl (\<lambda>s' c. resume_continuation c s') s cs) = resumed s \<and>
   queue (executors (foldl (\<lambda>s' c. resume_continuation c s') s cs) p)
     = queue (executors s p) @ resumers_for p cs \<and>
   dequeued (executors (foldl (\<lambda>s' c. resume_continuation c s') s cs) p) = dequeued (executors s p) \<and>
   executed (executors (foldl (\<lambda>s' c. resume_continuation c s') s cs) p) = executed (executors s p)"
  by (induction cs arbitrary: s)
     (auto simp: resume_continuation_def schedule_on_def schedule_def resumers_for_def)

lemma resume_all_states [simp]: "states (resume_all_continuations cm s) = states s"
  by (simp add: resume_all_continuations_def resume_all_fold)

lemma resume_all_resumed [simp]: "resumed (resume_all_continuations cm s) = resumed s"
  by (simp add: resume_all_continuations_def resume_all_fold)

lemma resume_all_queue:
  "queue_of (resume_all_continuations cm s) p = queue_of s p @ resumers_for p (continuations cm)"
  by (simp add: resume_all_continuations_def resume_all_fold queue_of_def)

lemma resume_all_history:
  "dequeued (executors (resume_all_continuations cm s) p) = dequeued (executors s p) \<and>
   executed (executors (resume_all_continuations cm s) p) = executed (executors s p)"
  by (simp add: resume_all_continuations_def resume_all_fold)

lemma execute_states [simp]: "states (execute x s) = states s"
  by (cases x) (auto simp: resume_def split: option.splits if_splits)

lemma worker_step_states [simp]: "states (worker_step p i s) = states s"
  by (auto simp: worker_step_def Let_def split: option.splits)

lemma pool_op_states [simp]: "states (pool_op p eo s) = states s"
  by (cases eo) (auto simp: schedule_on_def)

lemma conts_resume_all [simp]:
  "continuations_of (resume_all_continuations cm s) t = continuations_of s t"
  by (simp add: continuations_of_def)

lemma conts_store:
  "continuations_of (store t st s) t' =
     (if t' = t then continuations (continuation_manager st) else continuations_of s t')"
  by (simp add: continuations_of_def)

lemma conts_append:
  "continuations_of (register_continuation_append t h s) t' =
     (if t' = t \<and> states s t \<noteq> None
      then continuations_of s t @ [\<lparr>c_handle = h, c_executor = get_executor\<rparr>]
      else continuations_of s t')"
  by (auto simp: register_continuation_append_def conts_store register_continuation_def
        continuations_of_def split: option.splits if_splits)

lemma conts_check [simp]:
  "continuations_of (register_continuation_check t s) t' = continuations_of s t'"
  by (auto simp: register_continuation_check_def split: option.splits if_splits)

lemma conts_task_register:
  "continuations_of (ctask_register_continuation t h s) t' =
     (if t' = t \<and> states s t \<noteq> None
      then continuations_of s t @ [\<lparr>c_handle = h, c_executor = get_executor\<rparr>]
      else continuations_of s t')"
  by (simp add: ctask_register_continuation_def conts_append)

lemma conts_final_suspend [simp]:
  "continuations_of (final_suspend t s) t' = continuations_of s t'"
  by (auto simp: final_suspend_def lock_def conts_store set_handle_def continuations_of_def
        split: option.splits if_splits)

lemma conts_return_value:
  "return_value t v s = Inr s' \<Longrightarrow> continuations_of s' t' = continuations_of s t'"
  by (auto simp: return_value_def lock_def set_result_def conts_store continuations_of_def
        split: option.splits if_splits)

lemma conts_unhandled:
  "unhandled_exception t x s = Inr s' \<Longrightarrow> continuations_of s' t' = continuations_of s t'"
  by (auto simp: unhandled_exception_def lock_def set_exception_def conts_store continuations_of_def
        split: option.splits if_splits)

lemma conts_finish:
  "finish t b s = Inr s' \<Longrightarrow> continuations_of s' t' = continuations_of s t'"
  by (cases b) (auto split: sum.splits dest: conts_return_value conts_unhandled)

lemma conts_unless_thrown:
  "(\<And>s'. r = Inr s' \<Longrightarrow> continuations_of s' t' = continuations_of s t') \<Longrightarrow>
   continuations_of (unless_thrown s r) t' = continuations_of s t'"
  by (cases r) auto

lemma conts_step:
  assumes "op \<noteq> Destroy t"
  shows "prefix (continuations_of s t) (continuations_of (apply_op s op) t)"
proof (cases op)
  case (Pool p eo)
  then show ?thesis by (simp add: continuations_of_def)
next
  case (Register t' c)
  then show ?thesis
    by (auto simp: on_state_def conts_store register_continuation_def continuations_of_def
          split: option.splits if_splits)
next
  case (Resume_all t')
  then show ?thesis by (auto split: option.splits if_splits)
next
  case (Set_result t' v)
  then show ?thesis
    by (auto simp: on_state_throwing_def set_result_def conts_store continuations_of_def
          split: option.splits if_splits)
next
  case (Set_exception t' x)
  then show ?thesis
    by (auto simp: on_state_throwing_def set_exception_def conts_store continuations_of_def
          split: option.splits if_splits)
next
  case (Set_handle t' h)
  then show ?thesis
    by (auto simp: on_state_def set_handle_def conts_store continuations_of_def split: option.splits if_splits)
next
  case (Set_name t' n)
  then show ?thesis
    by (auto simp: on_state_def set_name_def conts_store continuations_of_def split: option.splits if_splits)
next
  case (Task_register_append t' h)
  then show ?thesis by (simp add: conts_append)
next
  case (Task_register_check t')
  then show ?thesis by simp
next
  case (Task_register t' h)
  then show ?thesis by (simp add: conts_task_register)
next
  case (Await_suspend t' h)
  then show ?thesis by (simp add: await_suspend_def conts_task_register)
next
  case (Get_return_object t' h)
  then show ?thesis
    by (auto simp: get_return_object_def conts_store new_state_def continuations_of_def)
next
  case (Initial_suspend t')
  then show ?thesis
    by (auto simp: scheduler_await_suspend_def get_state_def lock_def schedule_on_def
          continuations_of_def split: option.splits if_splits)
next
  case (Return_value t' v)
  then show ?thesis using conts_unless_thrown[of "return_value t' v s" t s, OF conts_return_value]
    by simp
next
  case (Unhandled_exception t' x)
  then show ?thesis using conts_unless_thrown[of "unhandled_exception t' x s" t s, OF conts_unhandled]
    by simp
next
  case (Final_suspend t')
  then show ?thesis by simp
next
  case (Finish t' b)
  then show ?thesis using conts_unless_thrown[of "finish t' b s" t s, OF conts_finish]
    by simp
next
  case (Destroy t')
  with assms show ?thesis by (simp add: continuations_of_def)
qed

lemma conts_run:
  "Destroy t \<notin> set ops \<Longrightarrow> prefix (continuations_of s t) (continuations_of (run ops s) t)"
proof (induction ops rule: rev_induct)
  case Nil
  then show ?case by (simp add: run_def)
next
  case (snoc op ops)
  then have "prefix (continuations_of s t) (continuations_of (run ops s) t)" "op \<noteq> Destroy t"
    by auto
  with conts_step[of op t "run ops s"] show ?case
    by (auto simp: run_def intro: prefix_order.trans)
qed

subsection \<open>What the operations do to a result that is written\<close>

lemma gr_states: "states s' = states s \<Longrightarrow> get_result s' t = get_result s t"
  by (simp add: get_result_def)

lemma gr_store:
  "get_result (store t' st s) t = (if t = t' then result st else get_result s t)"
  by (simp add: get_result_def)

lemma gr_append:
  "get_result (register_continuation_append t' h s) t = get_result s t"
  by (auto simp: register_continuation_append_def gr_store get_result_def split: option.splits)

lemma gr_check:
  "get_result (register_continuation_check t' s) t = get_result s t"
  by (auto simp: register_continuation_check_def get_result_def split: option.splits)

lemma gr_task_register:
  "get_result (ctask_register_continuation t' h s) t = get_result s t"
  by (simp add: ctask_register_continuation_def gr_append gr_check)

lemma gr_final_suspend:
  "get_result (final_suspend t' s) t = get_result s t"
  by (auto simp: final_suspend_def lock_def gr_store set_handle_def get_result_def split: option.splits)

lemma gr_return_value:
  "return_value t' v s = Inr s' \<Longrightarrow> get_result s t = Some r \<Longrightarrow> get_result s' t = Some r"
  by (auto simp: return_value_def lock_def set_result_def get_result_def
        split: option.splits if_splits)

lemma gr_unhandled:
  "unhandled_exception t' x s = Inr s' \<Longrightarrow> get_result s t = Some r \<Longrightarrow> get_result s' t = Some r"
  by (auto simp: unhandled_exception_def lock_def set_exception_def get_result_def
        split: option.splits if_splits)

lemma gr_finish:
  "finish t' b s = Inr s' \<Longrightarrow> get_result s t = Some r \<Longrightarrow> get_result s' t = Some r"
  by (cases b) (auto simp: gr_final_suspend split: sum.splits dest: gr_return_value gr_unhandled)

lemma result_step:
  assumes "get_result s t = Some r" "op \<noteq> Destroy t"
  shows "get_result (apply_op s op) t = Some r"
proof (cases op)
  case (Pool p eo)
  then show ?thesis using assms by (simp add: get_result_def)
next
  case (Register t' c)
  then show ?thesis using assms
    by (auto simp: on_state_def gr_store get_result_def split: option.splits)
next
  case (Resume_all t')
  then show ?thesis using assms by (auto simp: get_result_def split: option.splits)
next
  case (Set_result t' v)
  then show ?thesis using assms
    by (auto simp: on_state_throwing_def set_result_def get_result_def split: option.splits)
next
  case (Set_exception t' x)
  then show ?thesis using assms
    by (auto simp: on_state_throwing_def set_exception_def get_result_def split: option.splits)
next
  case (Set_handle t' h)
  then show ?thesis using assms
    by (auto simp: on_state_def set_handle_def get_result_def split: option.splits)
next
  case (Set_name t' n)
  then show ?thesis using assms
    by (auto simp: on_state_def set_name_def get_result_def split: option.splits)
next
  case (Task_register_append t' h)
  then show ?thesis using assms by (simp add: gr_append)
next
  case (Task_register_check t')
  then show ?thesis using assms by (simp add: gr_check)
next
  case (Task_register t' h)
  then show ?thesis using assms by (simp add: gr_task_register)
next
  case (Await_suspend t' h)
  then show ?thesis using assms by (simp add: await_suspend_def gr_task_register)
next
  case (Get_return_object t' h)
  then show ?thesis using assms
    by (auto simp: get_return_object_def get_result_def)
next
  case (Initial_suspend t')
  then show ?thesis using assms
    by (auto simp: scheduler_await_suspend_def get_state_def lock_def schedule_on_def
          get_result_def split: option.splits)
next
  case (Return_value t' v)
  then show ?thesis using assms
    by (cases "return_value t' v s") (auto dest: gr_return_value)
next
  case (Unhandled_exception t' x)
  then show ?thesis using assms
    by (cases "unhandled_exception t' x s") (auto dest: gr_unhandled)
next
  case (Final_suspend t')
  then show ?thesis using assms by (simp add: gr_final_suspend)
next
  case (Finish t' b)
  then show ?thesis using assms
    by (cases "finish t' b s") (auto dest: gr_finish)
next
  case (Destroy t')
  with assms show ?thesis by (simp add: get_result_def)
qed

lemma result_run:
  "get_result s t = Some r \<Longrightarrow> Destroy t \<notin> set ops \<Longrightarrow> get_result (run ops s) t = Some r"
proof (induction ops rule: rev_induct)
  case Nil
  then show ?case by (simp add: run_def)
next
  case (snoc op ops)
  then have "get_result (run ops s) t = Some r" "op \<noteq> Destroy t" by auto
  from result_step[OF this] show ?case by (simp add: run_def)
qed

lemma popped_dequeued:
  "dequeued (run_thread i e) = dequeued e @ (case popped i e of None \<Rightarrow> [] | Some x \<Rightarrow> [x])"
  by (auto simp: run_thread_def popped_def set_pc_def take_next_def
        split: position.splits list.splits)

subsection \<open>Resuming all continuations\<close>

text \<open>
  Claim C9. \<^verbatim>\<open>resume_all_continuations\<close> appends to the queue of every pool \<open>p\<close> one
  resumer for each registered continuation whose executor is \<open>p\<close>, in the order of
  registration, and that is all it does: no \<^verbatim>\<open>resume()\<close> is called (\<open>resumed\<close> is
  unchanged), no item is dequeued or executed by it, and no state is changed.
\<close>

theorem resume_all_schedules_a_resumer_on_each_continuations_executor:
  "queue_of (resume_all_continuations cm s) p = queue_of s p @ resumers_for p (continuations cm) \<and>
   resumed (resume_all_continuations cm s) = resumed s \<and>
   dequeued (executors (resume_all_continuations cm s) p) = dequeued (executors s p) \<and>
   executed (executors (resume_all_continuations cm s) p) = executed (executors s p) \<and>
   states (resume_all_continuations cm s) = states s"
  using resume_all_queue[of cm s p] resume_all_history[of cm s p] by simp

subsection \<open>A promise whose state is gone\<close>

lemma lock_destroy: "lock (apply_op s (Destroy t)) t = None"
  by (simp add: lock_def)

lemma dead_promise:
  assumes "lock s t = None"
  shows "return_value t v s = Inr s" "unhandled_exception t x s = Inr s" "final_suspend t s = s"
        "finish t b s = Inr s"
proof -
  show r: "return_value t v s = Inr s" for v using assms by (simp add: return_value_def)
  show u: "unhandled_exception t x s = Inr s" for x using assms by (simp add: unhandled_exception_def)
  show f: "final_suspend t s = s" using assms by (simp add: final_suspend_def)
  show "finish t b s = Inr s" using r u f by (cases b) simp_all
qed

text \<open>
  Claim C10. The promise reaches the state only through \<open>lock\<close>. Once the state is
  destroyed the lock fails, and \<^verbatim>\<open>return_value\<close>, \<^verbatim>\<open>unhandled_exception\<close> and
  \<^verbatim>\<open>final_suspend\<close>, and so the whole end of the body, return without an exception and
  leave the system as it was: no result is written, no continuation is resumed or
  scheduled, no handle is cleared.
\<close>

theorem promise_without_state_does_nothing:
  "lock (apply_op s0 (Destroy t)) t = None \<and>
   (lock s t = None \<longrightarrow>
      return_value t v s = Inr s \<and> unhandled_exception t x s = Inr s \<and> final_suspend t s = s \<and>
      finish t b s = Inr s)"
  using lock_destroy[of s0 t] dead_promise[of s t] by blast

lemmas sys_eval = run_def example_task_def example_completed_def initial_sys_def
  get_return_object_def store_def new_state_def DEFAULT_CONCURRENCY_def get_executor_def
  scheduler_await_suspend_def get_state_def lock_def schedule_on_def schedule_def
  worker_step_def popped_def run_thread_def set_pc_def take_next_def executor_def
  register_continuation_append_def register_continuation_check_def register_continuation_def
  ctask_register_continuation_def ready_def get_result_def
  return_value_def unhandled_exception_def final_suspend_def set_result_def set_exception_def
  set_handle_def resume_all_continuations_def resume_continuation_def resume_def
  continuations_of_def queue_of_def Let_def

text \<open>The theorem at the example task after its state has been destroyed: the body then
  returns 8, or throws.\<close>

theorem promise_without_state_witness:
  "lock (apply_op example_task (Destroy 1)) 1 = None \<and>
   return_value 1 8 (apply_op example_task (Destroy 1)) = Inr (apply_op example_task (Destroy 1)) \<and>
   unhandled_exception 1 (Thrown 0) (apply_op example_task (Destroy 1))
     = Inr (apply_op example_task (Destroy 1)) \<and>
   final_suspend 1 (apply_op example_task (Destroy 1)) = apply_op example_task (Destroy 1) \<and>
   finish 1 (Co_return 8) (apply_op example_task (Destroy 1)) = Inr (apply_op example_task (Destroy 1)) \<and>
   lock example_task 1 \<noteq> None"
proof -
  have h: "lock (apply_op example_task (Destroy 1)) 1 = None" by (simp add: lock_def)
  have a: "lock example_task 1 \<noteq> None" by (simp add: sys_eval)
  from promise_without_state_does_nothing
         [of example_task 1 "apply_op example_task (Destroy 1)" 8 "Thrown 0" "Co_return 8"] h a
  show ?thesis by blast
qed

subsection \<open>The result slot\<close>

lemma get_result_ready: "(get_result s t = None) = (\<not> ready s t)"
  by (auto simp: get_result_def ready_def split: option.splits)

text \<open>
  Claim C8. \<^verbatim>\<open>get_result()\<close> has not returned (\<open>None\<close>) exactly while the task is not
  ready, and \<^verbatim>\<open>wait()\<close> returns in the same states. Once it returns an outcome \<open>r\<close>, a
  value or a rethrown exception, every later call returns the same \<open>r\<close>, whatever the
  other threads do in between (\<open>ops\<close> is any execution that does not destroy the state,
  which the caller's task keeps alive): a second \<^verbatim>\<open>set_result\<close> or
  \<^verbatim>\<open>set_exception\<close> throws and leaves the slot as it is. Copies of a task hold the same
  address \<open>t\<close>; the call itself is a read and changes nothing.
\<close>

theorem get_result_returns_the_one_stored_outcome:
  "(get_result s t = None) = (\<not> ready s t) \<and>
   wait s t = ready s t \<and>
   (get_result s t = Some r \<and> Destroy t \<notin> set ops \<longrightarrow> get_result (run ops s) t = Some r) \<and>
   (get_result s t = Some r \<longrightarrow>
      apply_op s (Set_result t v) = s \<and> apply_op s (Set_exception t x) = s)"
proof -
  have a: "(get_result s t = None) = (\<not> ready s t)" by (rule get_result_ready)
  have b: "wait s t = ready s t" using a by (simp add: wait_def)
  have c: "get_result s t = Some r \<and> Destroy t \<notin> set ops \<longrightarrow> get_result (run ops s) t = Some r"
    using result_run[of s t r ops] by blast
  have d: "get_result s t = Some r \<longrightarrow>
      apply_op s (Set_result t v) = s \<and> apply_op s (Set_exception t x) = s"
    by (auto simp: get_result_def on_state_throwing_def set_result_def set_exception_def
          split: option.splits)
  from a b c d show ?thesis by blast
qed

text \<open>The theorem at the completed example task, with other threads that try to write the
  result again, register and resume continuations, and run a worker.\<close>

theorem get_result_witness:
  "get_result example_completed 1 = Some (Inr 8) \<and>
   Destroy 1 \<notin> set [Set_result 1 9, Set_exception 1 (Thrown 0), Task_register 1 20,
                      Finish 1 (Co_return 7), Pool 0 (Run_thread 0) :: int op] \<and>
   get_result (run [Set_result 1 9, Set_exception 1 (Thrown 0), Task_register 1 20,
                    Finish 1 (Co_return 7), Pool 0 (Run_thread 0)] example_completed) 1
     = Some (Inr 8) \<and>
   apply_op example_completed (Set_result 1 9) = example_completed"
proof -
  have h: "get_result example_completed 1 = Some (Inr 8)" by (simp add: sys_eval)
  have n: "Destroy 1 \<notin> set [Set_result 1 9, Set_exception 1 (Thrown 0), Task_register 1 20,
                      Finish 1 (Co_return 7), Pool 0 (Run_thread 0) :: int op]" by simp
  from get_result_returns_the_one_stored_outcome
         [of example_completed 1 "Inr 8"
             "[Set_result 1 9, Set_exception 1 (Thrown 0), Task_register 1 20,
               Finish 1 (Co_return 7), Pool 0 (Run_thread 0)]" 9 "Thrown 0"] h n
  show ?thesis by blast
qed

subsection \<open>A body that ends with an exception\<close>

lemma finish_throws:
  assumes "lock s t = Some st" "result st = None"
  shows "unhandled_exception t x s = Inr (store t (st\<lparr>result := Some (Inl x)\<rparr>) s)"
    and "finish t (Throws x) s = Inr (store t (st\<lparr>result := Some (Inl x), handle := None\<rparr>) s)"
    and "get_result (store t (st\<lparr>result := Some (Inl x), handle := None\<rparr>) s) t = Some (Inl x)"
proof -
  show u: "unhandled_exception t x s = Inr (store t (st\<lparr>result := Some (Inl x)\<rparr>) s)"
    using assms by (simp add: unhandled_exception_def set_exception_def)
  show "finish t (Throws x) s = Inr (store t (st\<lparr>result := Some (Inl x), handle := None\<rparr>) s)"
    using u by (simp add: final_suspend_def lock_def set_handle_def store_def)
  show "get_result (store t (st\<lparr>result := Some (Inl x), handle := None\<rparr>) s) t = Some (Inl x)"
    by (simp add: get_result_def)
qed

text \<open>A task whose body has not ended is alive with an empty result slot: the slot is
  empty after \<^verbatim>\<open>get_return_object\<close> and stays so through every operation that is not
  the end of this task's body or of its state.\<close>

lemma unwritten_other:
  "t' \<noteq> t \<Longrightarrow> states s' t = states s t \<Longrightarrow> unwritten s t \<Longrightarrow> unwritten s' t"
  by (simp add: unwritten_def)

lemma unwritten_step:
  assumes "unwritten s t" "\<not> ends_task t op"
  shows "unwritten (apply_op s op) t"
proof (cases op)
  case (Pool p eo)
  then show ?thesis using assms by (simp add: unwritten_def)
next
  case (Register t' c)
  then show ?thesis using assms
    by (auto simp: on_state_def unwritten_def split: option.splits)
next
  case (Resume_all t')
  then show ?thesis using assms by (auto simp: unwritten_def split: option.splits)
next
  case (Set_result t' v)
  then show ?thesis using assms
    by (auto simp: on_state_throwing_def set_result_def unwritten_def split: option.splits)
next
  case (Set_exception t' x)
  then show ?thesis using assms
    by (auto simp: on_state_throwing_def set_exception_def unwritten_def split: option.splits)
next
  case (Set_handle t' h)
  then show ?thesis using assms
    by (auto simp: on_state_def set_handle_def unwritten_def split: option.splits)
next
  case (Set_name t' n)
  then show ?thesis using assms
    by (auto simp: on_state_def set_name_def unwritten_def split: option.splits)
next
  case (Task_register_append t' h)
  then show ?thesis using assms
    by (auto simp: register_continuation_append_def unwritten_def split: option.splits)
next
  case (Task_register_check t')
  then show ?thesis using assms
    by (auto simp: register_continuation_check_def unwritten_def split: option.splits)
next
  case (Task_register t' h)
  then show ?thesis using assms
    by (auto simp: ctask_register_continuation_def register_continuation_append_def
          register_continuation_check_def unwritten_def split: option.splits)
next
  case (Await_suspend t' h)
  then show ?thesis using assms
    by (auto simp: await_suspend_def ctask_register_continuation_def register_continuation_append_def
          register_continuation_check_def unwritten_def split: option.splits)
next
  case (Get_return_object t' h)
  then show ?thesis using assms
    by (auto simp: get_return_object_def unwritten_def)
next
  case (Initial_suspend t')
  then show ?thesis using assms
    by (auto simp: scheduler_await_suspend_def get_state_def lock_def schedule_on_def
          unwritten_def split: option.splits)
next
  case (Return_value t' v)
  then have ne: "t' \<noteq> t" using assms by simp
  show ?thesis using Return_value assms(1) ne
    by (cases "return_value t' v s")
       (auto simp: return_value_def lock_def set_result_def unwritten_def
          split: option.splits if_splits)
next
  case (Unhandled_exception t' x)
  then have ne: "t' \<noteq> t" using assms by simp
  show ?thesis using Unhandled_exception assms(1) ne
    by (cases "unhandled_exception t' x s")
       (auto simp: unhandled_exception_def lock_def set_exception_def unwritten_def
          split: option.splits if_splits)
next
  case (Final_suspend t')
  then show ?thesis using assms
    by (auto simp: final_suspend_def lock_def set_handle_def unwritten_def split: option.splits)
next
  case (Finish t' b)
  then have ne: "t' \<noteq> t" using assms by simp
  have "states s' t = states s t" if "finish t' b s = Inr s'" for s'
    using that ne
    by (cases b)
       (auto simp: return_value_def unhandled_exception_def final_suspend_def lock_def
          set_result_def set_exception_def set_handle_def
          split: option.splits if_splits sum.splits)
  then show ?thesis using Finish assms(1)
    by (cases "finish t' b s") (auto simp: unwritten_def)
next
  case (Destroy t')
  then show ?thesis using assms by (auto simp: unwritten_def)
qed

lemma unwritten_run:
  "unwritten s t \<Longrightarrow> \<not> list_ex (ends_task t) ops \<Longrightarrow> unwritten (run ops s) t"
proof (induction ops rule: rev_induct)
  case Nil
  then show ?case by (simp add: run_def)
next
  case (snoc op ops)
  then have "unwritten (run ops s) t" "\<not> ends_task t op" by auto
  from unwritten_step[OF this] show ?case by (simp add: run_def)
qed

lemma running_body_has_empty_slot:
  assumes "states s t = None" "\<not> list_ex (ends_task t) ops"
  shows "\<exists>st. lock (run ops (get_return_object t h s)) t = Some st \<and> result st = None"
proof -
  have "unwritten (get_return_object t h s) t"
    using assms(1) by (simp add: unwritten_def get_return_object_def new_state_def)
  from unwritten_run[OF this assms(2)] show ?thesis
    by (auto simp: unwritten_def lock_def split: option.splits)
qed

text \<open>
  Claim C7. When the body of a task whose state is alive and whose result is not yet
  written ends with an exception \<open>x\<close>, \<^verbatim>\<open>unhandled_exception\<close> stores \<open>x\<close> in the
  result slot; the end of the body changes nothing but the slot and the handle of that
  state, and no exception leaves the coroutine: the \<^verbatim>\<open>noexcept\<close> \<^verbatim>\<open>execute()\<close>
  returns to the worker's loop. From then on \<^verbatim>\<open>get_result()\<close> rethrows the same \<open>x\<close>
  to every caller, after any execution \<open>ops\<close> of other threads that does not destroy
  the state. When the state is gone nothing is stored and nothing escapes either.
\<close>

theorem failure_in_body_is_stored_and_rethrown_by_get_result:
  "(lock s t = Some st \<and> result st = None \<longrightarrow>
      unhandled_exception t x s = Inr (store t (st\<lparr>result := Some (Inl x)\<rparr>) s) \<and>
      finish t (Throws x) s = Inr (store t (st\<lparr>result := Some (Inl x), handle := None\<rparr>) s) \<and>
      noexcept (finish t (Throws x) s)
        = Returns (store t (st\<lparr>result := Some (Inl x), handle := None\<rparr>) s) \<and>
      get_result (store t (st\<lparr>result := Some (Inl x), handle := None\<rparr>) s) t = Some (Inl x) \<and>
      (Destroy t \<notin> set ops \<longrightarrow>
         get_result (run ops (store t (st\<lparr>result := Some (Inl x), handle := None\<rparr>) s)) t
           = Some (Inl x))) \<and>
   (lock s t = None \<longrightarrow> noexcept (finish t (Throws x) s) = Returns s)"
proof -
  have a: "unhandled_exception t x s = Inr (store t (st\<lparr>result := Some (Inl x)\<rparr>) s) \<and>
      finish t (Throws x) s = Inr (store t (st\<lparr>result := Some (Inl x), handle := None\<rparr>) s) \<and>
      noexcept (finish t (Throws x) s)
        = Returns (store t (st\<lparr>result := Some (Inl x), handle := None\<rparr>) s) \<and>
      get_result (store t (st\<lparr>result := Some (Inl x), handle := None\<rparr>) s) t = Some (Inl x) \<and>
      (Destroy t \<notin> set ops \<longrightarrow>
         get_result (run ops (store t (st\<lparr>result := Some (Inl x), handle := None\<rparr>) s)) t
           = Some (Inl x))"
    if h: "lock s t = Some st" "result st = None"
  proof -
    note f = finish_throws[OF h, of x]
    from f(2) have n: "noexcept (finish t (Throws x) s)
        = Returns (store t (st\<lparr>result := Some (Inl x), handle := None\<rparr>) s)" by simp
    from result_run[OF f(3), of ops] f n show ?thesis by blast
  qed
  have b: "noexcept (finish t (Throws x) s) = Returns s" if "lock s t = None"
    using dead_promise(4)[OF that, of "Throws x"] by simp
  from a b show ?thesis by blast
qed

text \<open>The theorem at the example task, whose body throws exception 3 while two threads
  wait for the result and a third registers a continuation.\<close>

theorem failure_in_body_witness:
  "lock example_task 1 = Some (new_state 10) \<and> result (new_state 10 :: int state) = None \<and>
   noexcept (finish 1 (Throws (Thrown 3)) example_task)
     = Returns (store 1 ((new_state 10)\<lparr>result := Some (Inl (Thrown 3)), handle := None\<rparr>) example_task) \<and>
   Destroy 1 \<notin> set [Task_register 1 20, Pool 0 (Run_thread 0), Set_result 1 5 :: int op] \<and>
   get_result (run [Task_register 1 20, Pool 0 (Run_thread 0), Set_result 1 5]
       (store 1 ((new_state 10)\<lparr>result := Some (Inl (Thrown 3)), handle := None\<rparr>) example_task)) 1
     = Some (Inl (Thrown 3)) \<and>
   lock (apply_op example_task (Destroy 1)) 1 = None \<and>
   noexcept (finish 1 (Throws (Thrown 3)) (apply_op example_task (Destroy 1)))
     = Returns (apply_op example_task (Destroy 1))"
proof -
  have h1: "lock example_task 1 = Some (new_state 10) \<and> result (new_state 10 :: int state) = None"
    by (simp add: sys_eval)
  have h2: "Destroy 1 \<notin> set [Task_register 1 20, Pool 0 (Run_thread 0), Set_result 1 5 :: int op]"
    by simp
  have h3: "lock (apply_op example_task (Destroy 1)) 1 = None" by (simp add: lock_def)
  from failure_in_body_is_stored_and_rethrown_by_get_result
         [of example_task 1 "new_state 10" "Thrown 3"
             "[Task_register 1 20, Pool 0 (Run_thread 0), Set_result 1 5]"] h1 h2
  have a: "noexcept (finish 1 (Throws (Thrown 3)) example_task)
     = Returns (store 1 ((new_state 10)\<lparr>result := Some (Inl (Thrown 3)), handle := None\<rparr>) example_task) \<and>
     get_result (run [Task_register 1 20, Pool 0 (Run_thread 0), Set_result 1 5]
       (store 1 ((new_state 10)\<lparr>result := Some (Inl (Thrown 3)), handle := None\<rparr>) example_task)) 1
     = Some (Inl (Thrown 3))"
    by blast
  from failure_in_body_is_stored_and_rethrown_by_get_result
         [of "apply_op example_task (Destroy 1)" 1 "new_state 10" "Thrown 3" "[]"] h3
  have b: "noexcept (finish 1 (Throws (Thrown 3)) (apply_op example_task (Destroy 1)))
     = Returns (apply_op example_task (Destroy 1))"
    by blast
  from h1 h2 h3 a b show ?thesis by blast
qed

subsection \<open>The wait list\<close>

lemma resume_all_op_queue:
  "queue_of (apply_op s (Resume_all t)) p = queue_of s p @ resumers_for p (continuations_of s t)"
  by (auto simp: resume_all_queue continuations_of_def resumers_for_def split: option.splits)

lemma resume_all_op_conts:
  "continuations_of (apply_op s (Resume_all t)) t' = continuations_of s t'"
  by (auto split: option.splits)

text \<open>
  Claim C4. Through any execution \<open>ops\<close> that does not destroy the state at \<open>t\<close>, the
  wait list of \<open>t\<close> at the start is a prefix of the wait list at the end: entries are
  only added, at the end. \<^verbatim>\<open>resume_all_continuations\<close> leaves the list as it is and
  schedules a resumer for each of its entries, so a second call schedules resumers for
  all the entries of the first call again (and for those registered in between).
\<close>

theorem continuations_only_grow_and_are_rescheduled_by_every_resume_all:
  "(Destroy t \<notin> set ops \<longrightarrow> prefix (continuations_of s t) (continuations_of (run ops s) t)) \<and>
   continuations_of (apply_op s (Resume_all t)) t = continuations_of s t \<and>
   queue_of (apply_op s (Resume_all t)) p = queue_of s p @ resumers_for p (continuations_of s t) \<and>
   queue_of (apply_op (apply_op s (Resume_all t)) (Resume_all t)) p
     = queue_of s p @ resumers_for p (continuations_of s t) @ resumers_for p (continuations_of s t)"
  using conts_run[of t ops s] resume_all_op_queue[of s t p]
        resume_all_op_queue[of "apply_op s (Resume_all t)" t p] resume_all_op_conts[of s t t]
  by simp

text \<open>The theorem at the example task: a continuation is registered, the body returns
  (which resumes all), a second continuation is registered (which resumes all again).\<close>

theorem continuations_only_grow_witness:
  "Destroy 1 \<notin> set [Finish 1 (Co_return 8), Task_register 1 30 :: int op] \<and>
   continuations_of (run [Task_register 1 20] example_task) 1
     = [\<lparr>c_handle = 20, c_executor = get_executor\<rparr>] \<and>
   prefix (continuations_of (run [Task_register 1 20] example_task) 1)
     (continuations_of (run [Finish 1 (Co_return 8), Task_register 1 30]
                          (run [Task_register 1 20] example_task)) 1) \<and>
   queue_of (run [Finish 1 (Co_return 8), Task_register 1 30] (run [Task_register 1 20] example_task))
     get_executor = [Resumer 20, Resumer 20, Resumer 30]"
proof -
  have h: "Destroy 1 \<notin> set [Finish 1 (Co_return 8), Task_register 1 30 :: int op]" by simp
  have c: "continuations_of (run [Task_register 1 20] example_task) 1
     = [\<lparr>c_handle = 20, c_executor = get_executor\<rparr>]"
    by (simp add: sys_eval)
  have q: "queue_of (run [Finish 1 (Co_return 8), Task_register 1 30] (run [Task_register 1 20] example_task))
     get_executor = [Resumer 20, Resumer 20, Resumer 30]"
    by (simp add: sys_eval)
  from continuations_only_grow_and_are_rescheduled_by_every_resume_all
         [of 1 "[Finish 1 (Co_return 8), Task_register 1 30]" "run [Task_register 1 20] example_task"] h
  have "prefix (continuations_of (run [Task_register 1 20] example_task) 1)
     (continuations_of (run [Finish 1 (Co_return 8), Task_register 1 30]
                          (run [Task_register 1 20] example_task)) 1)"
    by blast
  with h c q show ?thesis by blast
qed

subsection \<open>Awaiting another task\<close>

lemma ready_get_result: "ready s t \<Longrightarrow> \<exists>r. get_result s t = Some r"
  by (auto simp: ready_def get_result_def split: option.splits)

text \<open>
  Claim C3. Task A, with handle \<open>h\<close>, awaits task \<open>b\<close>. When \<open>b\<close> is ready,
  \<^verbatim>\<open>await_ready\<close> is true and the \<^verbatim>\<open>co_await\<close> continues at once with the stored
  outcome of \<open>b\<close>, the system unchanged: nothing is scheduled, no thread is changed.
  The same holds when \<open>b\<close> is found ready only by \<^verbatim>\<open>await_suspend\<close>, which then
  returns \<^verbatim>\<open>false\<close> (\<open>co_await_suspend\<close>). When \<open>b\<close> is not ready, \<^verbatim>\<open>await_suspend\<close>
  returns \<^verbatim>\<open>true\<close>, A is suspended, and the new state is that of
  \<^verbatim>\<open>b.register_continuation(h)\<close>, which puts \<open>h\<close> with the provider's executor on the
  wait list of \<open>b\<close>. \<^verbatim>\<open>await_resume\<close> is \<^verbatim>\<open>get_result\<close> of \<open>b\<close>: the stored value
  (\<open>Inr\<close>) or the stored exception, rethrown into A (\<open>Inl\<close>).
\<close>

theorem co_await_continues_inline_when_ready_and_registers_otherwise:
  "(ready s b \<longrightarrow>
      await_ready s b \<and>
      co_await (await_transform b) h s = (Continues (get_result s b), s) \<and>
      await_suspend b h s = (False, s) \<and>
      co_await_suspend b h s = (Continues (get_result s b), s) \<and>
      (\<exists>r. get_result s b = Some r)) \<and>
   (\<not> ready s b \<longrightarrow>
      \<not> await_ready s b \<and>
      await_suspend b h s = (True, ctask_register_continuation b h s) \<and>
      co_await (await_transform b) h s = (Suspended, ctask_register_continuation b h s) \<and>
      (states s b \<noteq> None \<longrightarrow>
         continuations_of (ctask_register_continuation b h s) b
           = continuations_of s b @ [\<lparr>c_handle = h, c_executor = get_executor\<rparr>])) \<and>
   await_resume s b = get_result s b \<and>
   (states s b = Some st \<and> result st = Some r \<longrightarrow> await_resume s b = Some r)"
proof -
  have a: "await_ready s b \<and>
      co_await (await_transform b) h s = (Continues (get_result s b), s) \<and>
      await_suspend b h s = (False, s) \<and>
      co_await_suspend b h s = (Continues (get_result s b), s) \<and>
      (\<exists>r. get_result s b = Some r)" if "ready s b"
    using that ready_get_result[OF that]
    by (simp add: await_ready_def co_await_def await_transform_def await_suspend_def
          co_await_suspend_def await_resume_def)
  have b: "\<not> await_ready s b \<and>
      await_suspend b h s = (True, ctask_register_continuation b h s) \<and>
      co_await (await_transform b) h s = (Suspended, ctask_register_continuation b h s) \<and>
      (states s b \<noteq> None \<longrightarrow>
         continuations_of (ctask_register_continuation b h s) b
           = continuations_of s b @ [\<lparr>c_handle = h, c_executor = get_executor\<rparr>])"
    if "\<not> ready s b"
    using that
    by (simp add: await_ready_def co_await_def await_transform_def await_suspend_def
          co_await_suspend_def conts_task_register)
  have c: "await_resume s b = get_result s b" by (simp add: await_resume_def)
  have d: "states s b = Some st \<and> result st = Some r \<longrightarrow> await_resume s b = Some r"
    by (simp add: await_resume_def get_result_def)
  from a b c d show ?thesis by blast
qed

text \<open>The theorem at the completed example task and at the example task before its
  body has run, awaited by a coroutine with handle 20.\<close>

theorem co_await_witness:
  "ready example_completed 1 \<and>
   co_await (await_transform 1) 20 example_completed = (Continues (Some (Inr 8)), example_completed) \<and>
   \<not> ready example_task 1 \<and>
   states example_task 1 \<noteq> None \<and>
   co_await (await_transform 1) 20 example_task
     = (Suspended, ctask_register_continuation 1 20 example_task) \<and>
   continuations_of (ctask_register_continuation 1 20 example_task) 1
     = [\<lparr>c_handle = 20, c_executor = get_executor\<rparr>] \<and>
   states example_completed 1
     = Some \<lparr>handle = None, name = [], result = Some (Inr 8),
             continuation_manager = \<lparr>continuations = []\<rparr>\<rparr> \<and>
   await_resume example_completed 1 = Some (Inr 8)"
proof -
  have h1: "ready example_completed 1" by (simp add: sys_eval)
  have g: "get_result example_completed 1 = Some (Inr 8)" by (simp add: sys_eval)
  have h2: "\<not> ready example_task 1 \<and> states example_task 1 \<noteq> None" by (simp add: sys_eval)
  have c0: "continuations_of example_task 1 = []" by (simp add: sys_eval)
  have h3: "states example_completed 1
     = Some \<lparr>handle = None, name = [], result = Some (Inr 8),
             continuation_manager = \<lparr>continuations = []\<rparr>\<rparr>"
    by (simp add: sys_eval)
  have h4: "result \<lparr>handle = None, name = [], result = Some (Inr (8::int)),
             continuation_manager = \<lparr>continuations = []\<rparr>\<rparr> = Some (Inr 8)" by simp
  note t1 = co_await_continues_inline_when_ready_and_registers_otherwise
              [of example_completed 1 20
                  "\<lparr>handle = None, name = [], result = Some (Inr 8),
                    continuation_manager = \<lparr>continuations = []\<rparr>\<rparr>" "Inr 8"]
  note t2 = co_await_continues_inline_when_ready_and_registers_otherwise
              [of example_task 1 20 "new_state 10" "Inr 8"]
  from t1 h1 have "co_await (await_transform 1) 20 example_completed
                     = (Continues (get_result example_completed 1), example_completed)" by blast
  then have a: "co_await (await_transform 1) 20 example_completed
                     = (Continues (Some (Inr 8)), example_completed)" by (simp only: g)
  from t1 h3 h4 have b: "await_resume example_completed 1 = Some (Inr 8)" by blast
  from t2 h2 have "co_await (await_transform 1) 20 example_task
     = (Suspended, ctask_register_continuation 1 20 example_task) \<and>
     continuations_of (ctask_register_continuation 1 20 example_task) 1
     = continuations_of example_task 1 @ [\<lparr>c_handle = 20, c_executor = get_executor\<rparr>]"
    by blast
  then have c: "co_await (await_transform 1) 20 example_task
     = (Suspended, ctask_register_continuation 1 20 example_task) \<and>
     continuations_of (ctask_register_continuation 1 20 example_task) 1
     = [\<lparr>c_handle = 20, c_executor = get_executor\<rparr>]"
    by (simp only: c0 append_Nil)
  from h1 h2 h3 a b c show ?thesis by blast
qed

subsection \<open>Registering a continuation on a task that is already complete\<close>

text \<open>
  Claim C2, evaluated on the code. The result of the task at address 1 is written
  (\<^verbatim>\<open>set_result\<close> in \<^verbatim>\<open>return_value\<close>) when \<^verbatim>\<open>register_continuation\<close> is called
  with handle 20.
  \<^item> The call appends handle 20 to the wait list and, the task being ready, resumes all:
    one resumer for handle 20 is queued. The completing thread then goes on in
    \<^verbatim>\<open>return_value\<close> to its own \<^verbatim>\<open>resume_all_continuations\<close>, which picks handle 20
    up from the wait list: a second resumer is queued, and two workers call
    \<^verbatim>\<open>resume()\<close> on handle 20.
  \<^item> Without any interleaving: on the completed example task handle 20 is registered
    and then handle 30; the second call schedules handle 20 again.
\<close>

theorem registration_after_completion_is_submitted_twice:
  "get_result (run [Get_return_object 1 10, Set_result 1 8] (initial_sys :: int sys)) 1 = Some (Inr 8) \<and>
   continuations_of (run [Get_return_object 1 10, Set_result 1 8, Task_register 1 20]
                       (initial_sys :: int sys)) 1
     = [\<lparr>c_handle = 20, c_executor = get_executor\<rparr>] \<and>
   queue_of (run [Get_return_object 1 10, Set_result 1 8, Task_register 1 20]
               (initial_sys :: int sys)) get_executor = [Resumer 20] \<and>
   queue_of (run [Get_return_object 1 10, Set_result 1 8, Task_register 1 20, Resume_all 1,
                  Final_suspend 1] (initial_sys :: int sys)) get_executor
     = [Resumer 20, Resumer 20] \<and>
   resumed (run [Get_return_object 1 10, Set_result 1 8, Task_register 1 20, Resume_all 1,
                 Final_suspend 1, Pool get_executor (Run_thread 0),
                 Pool get_executor (Run_thread 1)] (initial_sys :: int sys))
     = [20, 20] \<and>
   ready example_completed 1 \<and>
   continuations_of example_completed 1 = [] \<and>
   continuations_of (run [Task_register 1 20] example_completed) 1
     = [\<lparr>c_handle = 20, c_executor = get_executor\<rparr>] \<and>
   queue_of (run [Task_register 1 20] example_completed) get_executor = [Resumer 20] \<and>
   queue_of (run [Task_register 1 20, Task_register 1 30] example_completed) get_executor
     = [Resumer 20, Resumer 20, Resumer 30]"
  by (simp add: sys_eval on_state_throwing_def numeral_eq_Suc)

subsection \<open>A continuation registered before completion\<close>

text \<open>
  Claim C1, evaluated on the code. The task at address 1 is not complete when the
  coroutine with handle 20 awaits it.
  \<^item> The awaiter's \<^verbatim>\<open>register_continuation\<close> appends handle 20; the task's body then
    returns 8, and \<^verbatim>\<open>return_value\<close> writes the result and resumes all; the awaiter's
    call goes on, finds the task ready and resumes all again. The queue holds two
    resumers for handle 20; neither thread has called \<^verbatim>\<open>resume()\<close> itself, and two
    workers then call it on handle 20.
  \<^item> Without any interleaving: handle 20 is registered, the body returns, and handle 30
    is registered afterwards; handle 20 is scheduled twice.
  \<^item> The body throws instead: the exception is stored, the task is ready, and nothing
    is scheduled for handle 20.
\<close>

theorem continuation_registered_before_completion_is_not_resumed_once:
  "continuations_of (run [Get_return_object 1 10, Task_register_append 1 20] (initial_sys :: int sys)) 1
     = [\<lparr>c_handle = 20, c_executor = get_executor\<rparr>] \<and>
   get_result (run [Get_return_object 1 10, Task_register_append 1 20] (initial_sys :: int sys)) 1 = None \<and>
   queue_of (run [Get_return_object 1 10, Task_register_append 1 20, Finish 1 (Co_return 8),
                  Task_register_check 1] (initial_sys :: int sys)) get_executor
     = [Resumer 20, Resumer 20] \<and>
   resumed (run [Get_return_object 1 10, Task_register_append 1 20, Finish 1 (Co_return 8),
                 Task_register_check 1] (initial_sys :: int sys)) = [] \<and>
   resumed (run [Get_return_object 1 10, Task_register_append 1 20, Finish 1 (Co_return 8),
                 Task_register_check 1, Pool get_executor (Run_thread 0),
                 Pool get_executor (Run_thread 1)] (initial_sys :: int sys))
     = [20, 20] \<and>
   queue_of (run [Get_return_object 1 10, Task_register 1 20, Finish 1 (Co_return 8),
                  Task_register 1 30] (initial_sys :: int sys)) get_executor
     = [Resumer 20, Resumer 20, Resumer 30] \<and>
   queue_of (run [Get_return_object 1 10, Task_register 1 20, Finish 1 (Throws (Thrown 3))]
               (initial_sys :: int sys)) get_executor = [] \<and>
   get_result (run [Get_return_object 1 10, Task_register 1 20, Finish 1 (Throws (Thrown 3))]
               (initial_sys :: int sys)) 1 = Some (Inl (Thrown 3))"
  by (simp add: sys_eval numeral_eq_Suc)

end
